theory Spec2Isabelle
  imports Complex_Main
begin

section \<open>Numbers, points and errors\<close>

text \<open>
  The program is JavaScript: every number is an IEEE double. A finite double is taken
  as the rational it denotes; \<open>NaN\<close> and the two infinities are separate values. The sign
  of zero is not modelled. The arithmetic of the reprojection and of the cell size rounds
  each result to the nearest double (\<open>fl\<close> below). Sample fields and the points of a
  polyline are finite numbers, and the corner cuts of the smoother are taken without
  rounding. A geographic point is the two-element array \<open>[lat, lng]\<close>.
\<close>

type_synonym pt = "rat \<times> rat"

text \<open>
  \<open>TypeError\<close> is the exception JavaScript throws on reading a property of
  \<open>undefined\<close> or destructuring a value that is not iterable; \<open>RangeError\<close> the one it
  throws on \<open>new Array(n)\<close> with \<open>n\<close> beyond \<open>2^32 - 1\<close>. \<open>UndefinedElement\<close> is not an
  exception: it marks a state in which an array would hold \<open>undefined\<close> where a point
  is expected.
\<close>

datatype error = TypeError | RangeError | UndefinedElement

datatype jsnum = NaN | NegInf | PosInf | Fin rat

definition signedInf :: "bool \<Rightarrow> jsnum" where
  "signedInf positive = (if positive then PosInf else NegInf)"

subsection \<open>Rounding to the nearest double\<close>

text \<open>The nearest integer, a tie going to the even one.\<close>

definition roundHalfEven :: "rat \<Rightarrow> int" where
  "roundHalfEven x =
     (let f = \<lfloor>x\<rfloor>; d = x - of_int f
      in if d < 1 / 2 then f
         else if 1 / 2 < d then f + 1
         else if even f then f else f + 1)"

text \<open>
  The binary exponent of a positive number: \<open>ilog2 x\<close> is the \<open>e\<close> with
  \<open>2^e \<le> x < 2^(e+1)\<close>, found by halving from 1 upwards and by doubling below 1.
\<close>

function log2_up :: "rat \<Rightarrow> int" where
  "log2_up x = (if x < 2 then 0 else 1 + log2_up (x / 2))"
  by pat_completeness auto
termination
proof (relation "measure (\<lambda>x. nat \<lfloor>x\<rfloor>)")
  show "wf (measure (\<lambda>x::rat. nat \<lfloor>x\<rfloor>))" by simp
next
  fix x :: rat
  assume "\<not> x < 2"
  then have "x / 2 \<le> x - 1" and "0 < \<lfloor>x\<rfloor>" by simp_all
  from floor_mono [OF this(1)] have "\<lfloor>x / 2\<rfloor> < \<lfloor>x\<rfloor>" by simp
  with \<open>0 < \<lfloor>x\<rfloor>\<close> show "(x / 2, x) \<in> measure (\<lambda>x. nat \<lfloor>x\<rfloor>)" by simp
qed

function log2_down :: "rat \<Rightarrow> int" where
  "log2_down x = (if x \<le> 0 \<or> 1 \<le> x then 0 else log2_down (2 * x) - 1)"
  by pat_completeness auto
termination
proof (relation "measure (\<lambda>x. nat \<lfloor>1 / x\<rfloor>)")
  show "wf (measure (\<lambda>x::rat. nat \<lfloor>1 / x\<rfloor>))" by simp
next
  fix x :: rat
  assume "\<not> (x \<le> 0 \<or> 1 \<le> x)"
  then have x: "0 < x" "x < 1" by simp_all
  define z where "z = 1 / x"
  from x have one: "1 \<le> z" by (simp add: z_def)
  have half: "1 / (2 * x) = z / 2" by (simp add: z_def)
  have "\<lfloor>z / 2\<rfloor> < \<lfloor>z\<rfloor>"
  proof (cases "2 \<le> z")
    case True
    then have "z / 2 \<le> z - 1" by simp
    from floor_mono [OF this] show ?thesis by simp
  next
    case False
    with one have "\<lfloor>z / 2\<rfloor> = 0" by (intro floor_unique) simp_all
    moreover from False one have "\<lfloor>z\<rfloor> = 1" by (intro floor_unique) simp_all
    ultimately show ?thesis by simp
  qed
  moreover from one have "0 < \<lfloor>z\<rfloor>" by simp
  ultimately show "(2 * x, x) \<in> measure (\<lambda>x. nat \<lfloor>1 / x\<rfloor>)"
    by (simp add: half z_def [symmetric])
qed

declare log2_up.simps [simp del] log2_down.simps [simp del]

definition ilog2 :: "rat \<Rightarrow> int" where
  "ilog2 x = (if 1 \<le> x then log2_up x else log2_down x)"

text \<open>
  The exponent of the binade of a double, at least \<open>-1022\<close> (below it the subnormal
  numbers share one spacing), and the spacing of the doubles there: 53 significant bits.
\<close>

definition bexp :: "rat \<Rightarrow> int" where
  "bexp x = max (ilog2 \<bar>x\<bar>) (- 1022)"

definition quantum :: "rat \<Rightarrow> rat" where
  "quantum x = 2 powi (bexp x - 52)"

definition nearest :: "rat \<Rightarrow> rat" where
  "nearest x = (if x = 0 then 0 else of_int (roundHalfEven (x / quantum x)) * quantum x)"

text \<open>
  \<open>fl x\<close> is the double a computation with exact result \<open>x\<close> returns: the nearest
  double, ties to even, and an infinity when that reaches \<open>2^1024\<close>.
\<close>

definition fl :: "rat \<Rightarrow> jsnum" where
  "fl x = (if 2 ^ 1024 \<le> \<bar>nearest x\<bar> then signedInf (0 < x) else Fin (nearest x))"

subsection \<open>Arithmetic on JavaScript numbers\<close>

fun js_neg :: "jsnum \<Rightarrow> jsnum" where
  "js_neg NaN = NaN"
| "js_neg NegInf = PosInf"
| "js_neg PosInf = NegInf"
| "js_neg (Fin a) = Fin (- a)"

fun js_add :: "jsnum \<Rightarrow> jsnum \<Rightarrow> jsnum" where
  "js_add (Fin a) (Fin b) = fl (a + b)"
| "js_add NaN _ = NaN"
| "js_add _ NaN = NaN"
| "js_add PosInf NegInf = NaN"
| "js_add NegInf PosInf = NaN"
| "js_add PosInf _ = PosInf"
| "js_add _ PosInf = PosInf"
| "js_add NegInf _ = NegInf"
| "js_add _ NegInf = NegInf"

definition js_sub :: "jsnum \<Rightarrow> jsnum \<Rightarrow> jsnum" where
  "js_sub a b = js_add a (js_neg b)"

fun js_mul :: "jsnum \<Rightarrow> jsnum \<Rightarrow> jsnum" where
  "js_mul (Fin a) (Fin b) = fl (a * b)"
| "js_mul NaN _ = NaN"
| "js_mul _ NaN = NaN"
| "js_mul PosInf (Fin b) = (if b = 0 then NaN else signedInf (0 < b))"
| "js_mul NegInf (Fin b) = (if b = 0 then NaN else signedInf (b < 0))"
| "js_mul (Fin a) PosInf = (if a = 0 then NaN else signedInf (0 < a))"
| "js_mul (Fin a) NegInf = (if a = 0 then NaN else signedInf (a < 0))"
| "js_mul PosInf PosInf = PosInf"
| "js_mul NegInf NegInf = PosInf"
| "js_mul PosInf NegInf = NegInf"
| "js_mul NegInf PosInf = NegInf"

fun js_div :: "jsnum \<Rightarrow> jsnum \<Rightarrow> jsnum" where
  "js_div (Fin a) (Fin b) =
     (if b \<noteq> 0 then fl (a / b) else if a = 0 then NaN else signedInf (0 < a))"
| "js_div NaN _ = NaN"
| "js_div _ NaN = NaN"
| "js_div (Fin a) _ = Fin 0"
| "js_div PosInf (Fin b) = signedInf (0 \<le> b)"
| "js_div NegInf (Fin b) = signedInf (b < 0)"
| "js_div PosInf PosInf = NaN"
| "js_div PosInf NegInf = NaN"
| "js_div NegInf PosInf = NaN"
| "js_div NegInf NegInf = NaN"

fun js_le :: "jsnum \<Rightarrow> jsnum \<Rightarrow> bool" where
  "js_le NaN _ = False"
| "js_le _ NaN = False"
| "js_le NegInf _ = True"
| "js_le _ PosInf = True"
| "js_le (Fin a) (Fin b) = (a \<le> b)"
| "js_le _ _ = False"

text \<open>\<open>Math.min\<close> and \<open>Math.max\<close> of two numbers: \<open>NaN\<close> when either is.\<close>

definition Math_min :: "jsnum \<Rightarrow> jsnum \<Rightarrow> jsnum" where
  "Math_min a b = (if a = NaN \<or> b = NaN then NaN else if js_le a b then a else b)"

definition Math_max :: "jsnum \<Rightarrow> jsnum \<Rightarrow> jsnum" where
  "Math_max a b = (if a = NaN \<or> b = NaN then NaN else if js_le a b then b else a)"


text \<open>
  \<open>xs[i]\<close> used as a number: an index outside the array reads \<open>undefined\<close>, which
  arithmetic takes as \<open>NaN\<close>.
\<close>

definition js_nth :: "rat list \<Rightarrow> int \<Rightarrow> jsnum" where
  "js_nth xs i = (if 0 \<le> i \<and> i < int (length xs) then Fin (xs ! nat i) else NaN)"


section \<open>Chaikin smoothing (\<open>chaikinSmooth\<close>, ClimateMap.jsx lines 21-46)\<close>

text \<open>The two corner-cut points \<open>Q\<close> and \<open>R\<close> of the edge from \<open>p\<close> to \<open>q\<close>.\<close>

definition cutQ :: "pt \<Rightarrow> pt \<Rightarrow> pt" where
  "cutQ p q = (0.75 * fst p + 0.25 * fst q, 0.75 * snd p + 0.25 * snd q)"

definition cutR :: "pt \<Rightarrow> pt \<Rightarrow> pt" where
  "cutR p q = (0.25 * fst p + 0.75 * fst q, 0.25 * snd p + 0.75 * snd q)"

text \<open>
  One pass of the outer \<open>for\<close> loop: the body from \<open>const next = []\<close> to
  \<open>pts = next\<close>. The inner loop runs \<open>i\<close> over \<open>startIndex \<le> i < endIndex - 1\<close>;
  where JavaScript's \<open>endIndex - 1\<close> is negative the range is empty, as it is with the
  truncating subtraction on \<open>nat\<close>. Every \<open>pts[i]\<close> and \<open>pts[i + 1]\<close> read by the inner
  loop is in range. The re-closing push reads \<open>next[0][0]\<close>, which throws a TypeError
  when \<open>next\<close> is empty. An open pass over the empty array would push the undefined
  \<open>pts[0]\<close>; \<open>chaikinSmooth\<close> never reaches that state (it only loops on three or more
  points, and an open pass returns at least two), and the model marks it as
  \<open>UndefinedElement\<close> rather than inventing a point.
\<close>

definition chaikin_pass :: "bool \<Rightarrow> pt list \<Rightarrow> error + pt list" where
  "chaikin_pass isClosed pts =
     (let n = length pts;
          startIndex = (if isClosed then 0 else 1);
          endIndex = (if isClosed then n else n - 1);
          first = (if \<not> isClosed then [pts ! 0] else []);
          cuts = concat (map (\<lambda>i. [cutQ (pts ! i) (pts ! (i + 1)), cutR (pts ! i) (pts ! (i + 1))])
                         [startIndex ..< endIndex - 1]);
          final = (if \<not> isClosed then [pts ! (n - 1)] else []);
          next = first @ cuts @ final
      in if \<not> isClosed \<and> n = 0 then Inl UndefinedElement
         else if isClosed \<and> next = [] then Inl TypeError
         else if isClosed \<and> (fst (next ! 0) \<noteq> fst (next ! (length next - 1))
                              \<or> snd (next ! 0) \<noteq> snd (next ! (length next - 1)))
         then Inr (next @ [(fst (next ! 0), snd (next ! 0))])
         else Inr next)"

text \<open>
  The outer loop, counting the passes still allowed: it stops when the requested number
  of passes is done, or right after a pass that leaves more than 12000 points.
\<close>

fun chaikin_loop :: "bool \<Rightarrow> nat \<Rightarrow> pt list \<Rightarrow> error + pt list" where
  "chaikin_loop isClosed 0 pts = Inr pts"
| "chaikin_loop isClosed (Suc k) pts =
     (case chaikin_pass isClosed pts of
        Inl e \<Rightarrow> Inl e
      | Inr next \<Rightarrow> if length next > 12000 then Inr next else chaikin_loop isClosed k next)"

definition chaikinSmooth :: "pt list \<Rightarrow> nat \<Rightarrow> error + pt list" where
  "chaikinSmooth latlngs iterations =
     (if length latlngs < 3 then Inr latlngs
      else
        let isClosed = (length latlngs > 2
                        \<and> fst (latlngs ! 0) = fst (latlngs ! (length latlngs - 1))
                        \<and> snd (latlngs ! 0) = snd (latlngs ! (length latlngs - 1)))
        in chaikin_loop isClosed iterations latlngs)"

section \<open>Zones and colours (lines 7-8, 55-62, 274-281, 301-317)\<close>

definition ZONE_BOUNDARIES :: "rat list" where
  "ZONE_BOUNDARIES = [15, 45, 85, 180, 240]"

definition assignZone :: "rat \<Rightarrow> string" where
  "assignZone wi =
     (if wi < 15 then ''I''
      else if wi < 45 then ''II''
      else if wi < 85 then ''III''
      else if wi < 180 then ''IV''
      else if wi < 240 then ''V''
      else ''VI'')"

text \<open>The \<open>climateZones\<close> object: zone name to colour (labels and ranges are display text).\<close>

definition climateZones :: "(string \<times> string) list" where
  "climateZones =
     [(''I'', ''#2563eb''), (''II'', ''#059669''), (''III'', ''#65a30d''),
      (''IV'', ''#d97706''), (''V'', ''#dc2626''), (''VI'', ''#7c2d12'')]"

definition zoneColor :: "string \<Rightarrow> string option" where
  "zoneColor z = map_of climateZones z"

definition colorForWi :: "rat \<Rightarrow> string option" where
  "colorForWi wi =
     (if wi < 15 then zoneColor ''I''
      else if wi < 45 then zoneColor ''II''
      else if wi < 85 then zoneColor ''III''
      else if wi < 180 then zoneColor ''IV''
      else if wi < 240 then zoneColor ''V''
      else zoneColor ''VI'')"

definition colorForThreshold :: "rat \<Rightarrow> string option" where
  "colorForThreshold t =
     (if t \<le> 15 then zoneColor ''II''
      else if t \<le> 45 then zoneColor ''III''
      else if t \<le> 85 then zoneColor ''IV''
      else if t \<le> 180 then zoneColor ''V''
      else zoneColor ''VI'')"

section \<open>The rasterizer (\<open>buildRasterFromPoints\<close>, lines 96-115)\<close>

text \<open>
  A sample is the object \<open>{ lat, lon, wi, zone }\<close>. A cell of the raster's value array is
  the fill value \<open>NaN\<close>, a number, or a hole left by a store beyond the array's end.
\<close>

record sample =
  lat :: rat
  lon :: rat
  wi :: rat
  zone :: string

datatype cell = CellNaN | CellHole | CellNum rat

record raster =
  rvalues :: "cell list"
  width :: nat
  height :: nat
  lats :: "rat list"
  lons :: "rat list"
  dLat :: jsnum
  dLon :: jsnum

text \<open>
  \<open>new Map(entries)\<close>: a later entry for a key replaces an earlier one.
\<close>

definition js_Map :: "('k \<times> 'v) list \<Rightarrow> ('k \<rightharpoonup> 'v)" where
  "js_Map entries = map_of (rev entries)"

text \<open>
  \<open>Array.from(new Set(xs)).sort((a, b) => a - b)\<close>: the distinct numbers in ascending
  order.
\<close>

definition sortedDistinct :: "rat list \<Rightarrow> rat list" where
  "sortedDistinct xs = sort (remdups xs)"

text \<open>
  \<open>arr[i] = v\<close>: a store inside the array replaces the element; a store beyond the end
  grows the array, leaving holes.
\<close>

definition js_store :: "cell list \<Rightarrow> nat \<Rightarrow> cell \<Rightarrow> cell list" where
  "js_store arr i v =
     (if i < length arr then arr[i := v]
      else arr @ replicate (i - length arr) CellHole @ [v])"

text \<open>
  \<open>x.toFixed(3)\<close> prints the nearest multiple of 1/1000, a tie going away from zero;
  from \<open>10^21\<close> on it prints the number itself. \<open>toFixed3\<close> is the number that text
  denotes, and \<open>plusToFixed3\<close> is \<open>+x.toFixed(3)\<close>, which reads the text back as a double.
\<close>

definition toFixed3 :: "rat \<Rightarrow> rat" where
  "toFixed3 x =
     (if 10 ^ 21 \<le> \<bar>x\<bar> then x
      else sgn x * of_int \<lfloor>\<bar>x\<bar> * 1000 + 1 / 2\<rfloor> / 1000)"

fun plusToFixed3 :: "jsnum \<Rightarrow> jsnum" where
  "plusToFixed3 (Fin x) = fl (toFixed3 x)"
| "plusToFixed3 x = x"

text \<open>The body of the loop \<open>for (const p of points)\<close>.\<close>

definition storeSample ::
  "(rat \<rightharpoonup> nat) \<Rightarrow> (rat \<rightharpoonup> nat) \<Rightarrow> nat \<Rightarrow> sample \<Rightarrow> cell list \<Rightarrow> cell list" where
  "storeSample latIndex lonIndex w p vals =
     (case (latIndex (lat p), lonIndex (lon p)) of
        (Some yi, Some xi) \<Rightarrow> js_store vals (xi + yi * w) (CellNum (wi p))
      | _ \<Rightarrow> vals)"

text \<open>
  The argument is \<open>None\<close> when \<open>points\<close> is null or undefined; the result \<open>Inr None\<close> is
  \<open>null\<close>. \<open>new Array(width * height)\<close> throws a RangeError when the length is \<open>2^32\<close> or
  more.
\<close>

definition buildRasterFromPoints :: "sample list option \<Rightarrow> error + raster option" where
  "buildRasterFromPoints points =
     (case points of
        None \<Rightarrow> Inr None
      | Some ps \<Rightarrow>
          if length ps = 0 then Inr None
          else
            let lats = sortedDistinct (map lat ps);
                lons = sortedDistinct (map lon ps);
                latIndex = js_Map (zip lats [0 ..< length lats]);
                lonIndex = js_Map (zip lons [0 ..< length lons]);
                height = length lats;
                width = length lons
            in if 2 ^ 32 \<le> width * height then Inl RangeError
               else
                 let vals = fold (storeSample latIndex lonIndex width) ps
                              (replicate (width * height) CellNaN);
                     dLat = (if length lats \<ge> 2
                             then plusToFixed3 (js_sub (Fin (lats ! 1)) (Fin (lats ! 0)))
                             else fl 0.1);
                     dLon = (if length lons \<ge> 2
                             then plusToFixed3 (js_sub (Fin (lons ! 1)) (Fin (lons ! 0)))
                             else fl 0.1)
                 in Inr (Some \<lparr> rvalues = vals, width = width, height = height,
                                 lats = lats, lons = lons, dLat = dLat, dLon = dLon \<rparr>))"

section \<open>The contour stage (\<open>ContourLayer\<close>, lines 117-167)\<close>

text \<open>
  The reprojection closures \<open>yToLat\<close> and \<open>xToLon\<close>, with the raster they capture as a
  parameter.
\<close>

definition yToLat :: "raster \<Rightarrow> jsnum \<Rightarrow> jsnum" where
  "yToLat r y =
     (let yClamped = Math_max (Fin 0) (Math_min (Fin (of_int (int (height r) - 1))) y);
          t = (if height r = 1 then Fin 0
               else js_div yClamped (Fin (of_int (int (height r) - 1))))
      in js_add (js_nth (lats r) 0)
           (js_mul t (js_sub (js_nth (lats r) (int (height r) - 1)) (js_nth (lats r) 0))))"

definition xToLon :: "raster \<Rightarrow> jsnum \<Rightarrow> jsnum" where
  "xToLon r x =
     (let xClamped = Math_max (Fin 0) (Math_min (Fin (of_int (int (width r) - 1))) x);
          t = (if width r = 1 then Fin 0
               else js_div xClamped (Fin (of_int (int (width r) - 1))))
      in js_add (js_nth (lons r) 0)
           (js_mul t (js_sub (js_nth (lons r) (int (width r) - 1)) (js_nth (lons r) 0))))"

text \<open>
  The coordinates of a contour are nested arrays of numbers, of any depth and shape.
\<close>

datatype node = Num jsnum | Arr "node list"

record contour =
  contourValue :: jsnum
  coordinates :: node

record polyline =
  latlngs :: "pt list"
  lineValue :: jsnum

text \<open>
  \<open>flattenRings\<close>: a ring is an array of more than one element whose first element is
  an array that starts with a number; any other array is searched element by element.
\<close>

fun startsWithNumber :: "node \<Rightarrow> bool" where
  "startsWithNumber (Arr (Num v # rest)) = True"
| "startsWithNumber _ = False"

fun walk :: "node \<Rightarrow> node list list" where
  "walk (Num v) = []"
| "walk (Arr children) =
     (if length children > 1 \<and> startsWithNumber (children ! 0) then [children]
      else concat (map walk children))"

definition flattenRings :: "node \<Rightarrow> node list list" where
  "flattenRings coords = walk coords"

text \<open>
  \<open>Math.min\<close> converts its argument to a number: \<open>undefined\<close> (here \<open>None\<close>, a missing
  array element) becomes \<open>NaN\<close>; an array becomes the number its comma-joined text
  denotes, so the empty array is 0, a one-element array is its element's number and a
  longer one is \<open>NaN\<close>.
\<close>

fun toNumber :: "node \<Rightarrow> jsnum" where
  "toNumber (Num v) = v"
| "toNumber (Arr []) = Fin 0"
| "toNumber (Arr [e]) = toNumber e"
| "toNumber (Arr (e # e' # rest)) = NaN"

definition argNumber :: "node option \<Rightarrow> jsnum" where
  "argNumber a = (case a of None \<Rightarrow> NaN | Some e \<Rightarrow> toNumber e)"

definition js_elem :: "node list \<Rightarrow> nat \<Rightarrow> node option" where
  "js_elem es i = (if i < length es then Some (es ! i) else None)"

text \<open>
  The callback \<open>([x, y]) => [yToLat(y), xToLon(x)]\<close>: destructuring a number throws a
  TypeError, destructuring an array binds \<open>x\<close> and \<open>y\<close> to its first two elements.
\<close>

fun projectPoint :: "raster \<Rightarrow> node \<Rightarrow> error + (jsnum \<times> jsnum)" where
  "projectPoint r (Num v) = Inl TypeError"
| "projectPoint r (Arr es) =
     Inr (yToLat r (argNumber (js_elem es 1)), xToLon r (argNumber (js_elem es 0)))"

fun projectRing :: "raster \<Rightarrow> node list \<Rightarrow> error + (jsnum \<times> jsnum) list" where
  "projectRing r [] = Inr []"
| "projectRing r (e # es) =
     (case projectPoint r e of
        Inl err \<Rightarrow> Inl err
      | Inr ll \<Rightarrow> (case projectRing r es of Inl err \<Rightarrow> Inl err | Inr lls \<Rightarrow> Inr (ll # lls)))"

text \<open>The filter that keeps the pairs finite in both components.\<close>

fun finitePoints :: "(jsnum \<times> jsnum) list \<Rightarrow> pt list" where
  "finitePoints [] = []"
| "finitePoints ((Fin a, Fin b) # lls) = (a, b) # finitePoints lls"
| "finitePoints (ll # lls) = finitePoints lls"

text \<open>The loop over the rings of one contour, and the loop over the contours.\<close>

fun ringLoop :: "raster \<Rightarrow> jsnum \<Rightarrow> node list list \<Rightarrow> polyline list \<Rightarrow> error + polyline list" where
  "ringLoop r v [] results = Inr results"
| "ringLoop r v (ring # rings) results =
     (if length ring < 2 then ringLoop r v rings results
      else
        case projectRing r ring of
          Inl err \<Rightarrow> Inl err
        | Inr lls \<Rightarrow>
            let latlngs = finitePoints lls
            in if length latlngs \<ge> 2
               then (case chaikinSmooth latlngs 4 of
                       Inl err \<Rightarrow> Inl err
                     | Inr smoothed \<Rightarrow>
                         ringLoop r v rings (results @ [\<lparr> latlngs = smoothed, lineValue = v \<rparr>]))
               else ringLoop r v rings results)"

fun contourLoop :: "raster \<Rightarrow> contour list \<Rightarrow> polyline list \<Rightarrow> error + polyline list" where
  "contourLoop r [] results = Inr results"
| "contourLoop r (c # cs) results =
     (case ringLoop r (contourValue c) (flattenRings (coordinates c)) results of
        Inl err \<Rightarrow> Inl err
      | Inr results' \<Rightarrow> contourLoop r cs results')"

text \<open>
  The generator \<open>contours().size([width, height]).thresholds(thresholds)\<close> of d3-contour
  is not part of the program: it is the parameter \<open>gen\<close>, any function of the size, the
  thresholds and the values that returns contours or throws.
\<close>

type_synonym contourGen = "nat \<Rightarrow> nat \<Rightarrow> rat list \<Rightarrow> cell list \<Rightarrow> error + contour list"

definition rasterPolylines :: "contourGen \<Rightarrow> rat list \<Rightarrow> raster \<Rightarrow> error + polyline list" where
  "rasterPolylines gen thresholds r =
     (if width r < 2 \<or> height r < 2 then Inr []
      else
        case gen (width r) (height r) thresholds (rvalues r) of
          Inl err \<Rightarrow> Inl err
        | Inr cs \<Rightarrow> contourLoop r cs [])"

text \<open>The memoised computation of \<open>ContourLayer\<close>: the list \<open>polylines\<close>.\<close>

definition ContourLayer :: "contourGen \<Rightarrow> sample list option \<Rightarrow> rat list \<Rightarrow> error + polyline list" where
  "ContourLayer gen points thresholds =
     (case buildRasterFromPoints points of
        Inl err \<Rightarrow> Inl err
      | Inr None \<Rightarrow> Inr []
      | Inr (Some r) \<Rightarrow> rasterPolylines gen thresholds r)"

section \<open>Properties of the smoother\<close>

lemma length_cuts:
  "length (concat (map (\<lambda>i. [f i, g i]) is)) = 2 * length is"
  by (induction "is") auto

lemma set_cuts:
  "set (concat (map (\<lambda>i. [f i, g i]) is)) = f ` set is \<union> g ` set is"
  by (induction "is") auto

text \<open>An open pass keeps the two end points and cuts the edges between interior points.\<close>

lemma chaikin_pass_open:
  assumes "2 \<le> length pts"
  shows "chaikin_pass False pts =
    Inr (pts ! 0 # concat (map (\<lambda>i. [cutQ (pts ! i) (pts ! (i + 1)), cutR (pts ! i) (pts ! (i + 1))])
                         [1 ..< length pts - 1 - 1]) @ [pts ! (length pts - 1)])"
proof -
  from assms have "pts \<noteq> []" by auto
  then show ?thesis by (simp add: chaikin_pass_def Let_def)
qed

lemma chaikin_pass_open_length:
  assumes "2 \<le> length pts" and "chaikin_pass False pts = Inr next"
  shows "length next = 2 * (length pts - 3) + 2"
  using assms by (auto simp add: chaikin_pass_open length_cuts)

lemma chaikin_pass_open_ends:
  assumes "2 \<le> length pts" and "chaikin_pass False pts = Inr next"
  shows "next ! 0 = pts ! 0 \<and> next ! (length next - 1) = pts ! (length pts - 1)"
  using assms by (auto simp add: chaikin_pass_open length_cuts nth_append nth_Cons')

text \<open>A closed pass over three or more points returns a closed ring of three or more.\<close>

lemma chaikin_pass_closed:
  assumes "3 \<le> length pts"
  shows "\<exists>next. chaikin_pass True pts = Inr next \<and> 3 \<le> length next
            \<and> next ! 0 = next ! (length next - 1)"
proof -
  let ?cuts = "concat (map (\<lambda>i. [cutQ (pts ! i) (pts ! (i + 1)), cutR (pts ! i) (pts ! (i + 1))])
                         [0 ..< length pts - 1])"
  have len: "length ?cuts = 2 * (length pts - 1)" by (simp add: length_cuts)
  with assms have l3: "3 \<le> length ?cuts" by simp
  then have ne: "?cuts \<noteq> []" by (metis length_0_conv not_numeral_le_zero)
  show ?thesis
  proof (cases "?cuts ! 0 = ?cuts ! (length ?cuts - 1)")
    case True
    with ne l3 show ?thesis
      by (simp add: chaikin_pass_def Let_def)
  next
    case False
    then have "fst (?cuts ! 0) \<noteq> fst (?cuts ! (length ?cuts - 1))
               \<or> snd (?cuts ! 0) \<noteq> snd (?cuts ! (length ?cuts - 1))"
      by (simp add: prod_eq_iff)
    with ne l3 show ?thesis
      by (simp add: chaikin_pass_def Let_def nth_append)
  qed
qed

lemma chaikin_loop_two: "chaikin_loop False k [a, c] = Inr [a, c]"
  by (induction k) (simp_all add: chaikin_pass_def Let_def)

lemma chaikin_loop_closed:
  "3 \<le> length pts \<Longrightarrow>
   \<exists>out. chaikin_loop True (Suc k) pts = Inr out \<and> 3 \<le> length out
          \<and> out ! 0 = out ! (length out - 1)"
proof (induction k arbitrary: pts)
  case 0
  from chaikin_pass_closed [OF 0] show ?case by auto
next
  case (Suc k)
  from chaikin_pass_closed [OF Suc.prems] obtain nxt where
    nxt: "chaikin_pass True pts = Inr nxt" "3 \<le> length nxt" "nxt ! 0 = nxt ! (length nxt - 1)"
    by blast
  show ?case
  proof (cases "length nxt > 12000")
    case True
    with nxt show ?thesis by simp
  next
    case False
    from Suc.IH [OF nxt(2)] obtain out where
      "chaikin_loop True (Suc k) nxt = Inr out" "3 \<le> length out" "out ! 0 = out ! (length out - 1)"
      by blast
    with nxt False show ?thesis by simp
  qed
qed

text \<open>
  Once a pass has left more than 12000 points the loop has stopped, so allowing more
  passes changes nothing.
\<close>

lemma chaikin_loop_ceiling:
  "chaikin_loop c k pts = Inr out \<Longrightarrow> 12000 < length out \<Longrightarrow> 1 \<le> k \<Longrightarrow> k \<le> m
   \<Longrightarrow> chaikin_loop c m pts = Inr out"
proof (induction k arbitrary: pts m)
  case 0
  then show ?case by simp
next
  case (Suc k)
  from Suc.prems(4) obtain m' where m: "m = Suc m'" and km: "k \<le> m'"
    by (cases m) auto
  from Suc.prems(1) obtain nxt where nxt: "chaikin_pass c pts = Inr nxt"
    by (auto split: sum.splits)
  show ?case
  proof (cases "length nxt > 12000")
    case True
    with nxt Suc.prems(1) m show ?thesis by simp
  next
    case False
    with nxt Suc.prems(1) have rest: "chaikin_loop c k nxt = Inr out" by simp
    have "1 \<le> k"
    proof (rule ccontr)
      assume "\<not> 1 \<le> k"
      then have "k = 0" by simp
      with rest have "out = nxt" by simp
      with False Suc.prems(2) show False by simp
    qed
    from Suc.IH [OF rest Suc.prems(2) this km] nxt False m show ?thesis by simp
  qed
qed

lemma chaikinSmooth_open_once:
  assumes "3 \<le> length pts" and "pts ! 0 \<noteq> pts ! (length pts - 1)"
  shows "\<exists>out. chaikinSmooth pts 1 = Inr out \<and> length out = 2 * (length pts - 3) + 2
               \<and> out ! 0 = pts ! 0 \<and> out ! (length out - 1) = pts ! (length pts - 1)"
proof -
  from assms(1) have two: "2 \<le> length pts" by simp
  from assms(2) have op: "\<not> (fst (pts ! 0) = fst (pts ! (length pts - 1))
                             \<and> snd (pts ! 0) = snd (pts ! (length pts - 1)))"
    by (simp add: prod_eq_iff)
  obtain nxt where nxt: "chaikin_pass False pts = Inr nxt"
    using chaikin_pass_open [OF two] by blast
  from assms(1) op nxt have "chaikinSmooth pts 1 = Inr nxt"
    by (auto simp add: chaikinSmooth_def Let_def One_nat_def)
  with chaikin_pass_open_length [OF two nxt] chaikin_pass_open_ends [OF two nxt]
  show ?thesis by blast
qed

text \<open>The smoother always returns: no pass of a reachable state throws.\<close>

lemma chaikin_loop_open_returns:
  "2 \<le> length pts \<Longrightarrow> \<exists>out. chaikin_loop False k pts = Inr out"
proof (induction k arbitrary: pts)
  case 0
  then show ?case by simp
next
  case (Suc k)
  from chaikin_pass_open [OF Suc.prems] obtain nxt where
    nxt: "chaikin_pass False pts = Inr nxt" by blast
  from chaikin_pass_open_length [OF Suc.prems nxt] have "2 \<le> length nxt" by simp
  from Suc.IH [OF this] nxt show ?case by simp
qed

lemma chaikinSmooth_returns: "\<exists>out. chaikinSmooth pts k = Inr out"
proof (cases "length pts < 3")
  case True
  then show ?thesis by (simp add: chaikinSmooth_def)
next
  case False
  then have three: "3 \<le> length pts" and two: "2 \<le> length pts" by simp_all
  define c where "c = (length pts > 2 \<and> fst (pts ! 0) = fst (pts ! (length pts - 1))
                        \<and> snd (pts ! 0) = snd (pts ! (length pts - 1)))"
  from False have eq: "chaikinSmooth pts k = chaikin_loop c k pts"
    by (simp add: chaikinSmooth_def Let_def c_def)
  have "\<exists>out. chaikin_loop c k pts = Inr out"
  proof (cases c)
    case False
    with chaikin_loop_open_returns [OF two] show ?thesis by simp
  next
    case True
    show ?thesis
    proof (cases k)
      case 0
      then show ?thesis by simp
    next
      case (Suc j)
      with chaikin_loop_closed [OF three, of j] True show ?thesis by auto
    qed
  qed
  with eq show ?thesis by simp
qed

text \<open>
  Claim C1, as amended. One iteration of \<open>chaikinSmooth\<close> on an open polyline of
  \<open>N \<ge> 3\<close> points returns \<open>2 * (N - 3) + 2\<close> points, and the first and the last input
  point are the first and the last output point. The open pass cuts only the \<open>N - 3\<close>
  edges between interior points (\<open>startIndex = 1\<close>, \<open>endIndex = n - 1\<close>), not \<open>N - 2\<close>
  edges.
\<close>

theorem chaikinSmooth_open_one_pass:
  assumes "3 \<le> length pts" and "hd pts \<noteq> last pts"
  shows "\<exists>out. chaikinSmooth pts 1 = Inr out \<and> length out = 2 * (length pts - 3) + 2
               \<and> hd out = hd pts \<and> last out = last pts"
proof -
  from assms(1) have ne: "pts \<noteq> []" by auto
  with assms(2) have "pts ! 0 \<noteq> pts ! (length pts - 1)"
    by (simp add: hd_conv_nth last_conv_nth)
  from chaikinSmooth_open_once [OF assms(1) this] obtain out where
    o: "chaikinSmooth pts 1 = Inr out" "length out = 2 * (length pts - 3) + 2"
       "out ! 0 = pts ! 0" "out ! (length out - 1) = pts ! (length pts - 1)" by blast
  from o(2) have "out \<noteq> []" by auto
  with o ne show ?thesis by (simp add: hd_conv_nth last_conv_nth)
qed

theorem chaikinSmooth_open_one_pass_witness:
  "\<exists>out. chaikinSmooth [(0, 0), (4, 4), (8, 0), (12, 4)] 1 = Inr out \<and> length out = 4
         \<and> hd out = (0, 0) \<and> last out = (12, 4)"
  using chaikinSmooth_open_one_pass [of "[(0, 0), (4, 4), (8, 0), (12, 4)]"] by simp

text \<open>
  The count \<open>2 * (N - 2) + 2\<close> fails already at \<open>N = 3\<close>: the open polyline
  \<open>(0,0), (1,1), (2,0)\<close> comes back as its two end points, not as four points.
\<close>

theorem chaikinSmooth_open_count_counterexample:
  "hd [(0, 0), (1, 1), (2, 0) :: pt] \<noteq> last [(0, 0), (1, 1), (2, 0) :: pt]
   \<and> 3 \<le> length [(0, 0), (1, 1), (2, 0) :: pt]
   \<and> chaikinSmooth [(0, 0), (1, 1), (2, 0)] 1 = Inr [(0, 0), (2, 0)]
   \<and> length [(0, 0), (2, 0) :: pt] \<noteq> 2 * (length [(0, 0), (1, 1), (2, 0) :: pt] - 2) + 2"
  by (simp add: chaikinSmooth_def chaikin_pass_def Let_def One_nat_def)

text \<open>
  Claim C2. For a closed input ring (first point equal to last point) of at least three
  points and any iteration count \<open>k \<ge> 1\<close>, \<open>chaikinSmooth\<close> returns normally and its
  output is closed again: the first and the last output point are equal.
\<close>

theorem chaikinSmooth_closed_stays_closed:
  assumes "3 \<le> length pts" and "hd pts = last pts" and "1 \<le> k"
  shows "\<exists>out. chaikinSmooth pts k = Inr out \<and> 3 \<le> length out \<and> hd out = last out"
proof -
  from assms(1) have ne: "pts \<noteq> []" by auto
  with assms(2) have cl: "pts ! 0 = pts ! (length pts - 1)"
    by (simp add: hd_conv_nth last_conv_nth)
  from assms(3) obtain j where k: "k = Suc j" by (cases k) auto
  from chaikin_loop_closed [OF assms(1), of j] obtain out where
    o: "chaikin_loop True (Suc j) pts = Inr out" "3 \<le> length out"
       "out ! 0 = out ! (length out - 1)" by blast
  from o(2) have "out \<noteq> []" by auto
  with o(3) have "hd out = last out" by (simp add: hd_conv_nth last_conv_nth)
  moreover from assms(1) cl o(1) k have "chaikinSmooth pts k = Inr out"
    by (simp add: chaikinSmooth_def Let_def)
  ultimately show ?thesis using o(2) by blast
qed

theorem chaikinSmooth_closed_stays_closed_witness:
  "\<exists>out. chaikinSmooth [(0, 0), (4, 4), (8, 0), (0, 0)] 2 = Inr out \<and> 3 \<le> length out
         \<and> hd out = last out"
  using chaikinSmooth_closed_stays_closed [of "[(0, 0), (4, 4), (8, 0), (0, 0)]" 2] by simp

text \<open>
  The result is that of some number \<open>j\<close> of passes, \<open>j\<close> at most the number requested
  (a pass that throws ends the chain with its error).
\<close>

lemma chaikin_loop_passes:
  "\<exists>j\<le>k. chaikin_loop c k pts =
      ((\<lambda>res. case res of Inl e \<Rightarrow> Inl e | Inr p \<Rightarrow> chaikin_pass c p) ^^ j) (Inr pts)"
proof (induction k arbitrary: pts)
  case 0
  then show ?case by simp
next
  case (Suc k)
  let ?step = "\<lambda>res. case res of Inl e \<Rightarrow> Inl e | Inr p \<Rightarrow> chaikin_pass c p"
  show ?case
  proof (cases "chaikin_pass c pts")
    case (Inl e)
    then have "chaikin_loop c (Suc k) pts = (?step ^^ 1) (Inr pts)" by simp
    then show ?thesis by (intro exI [of _ 1]) simp
  next
    case (Inr nxt)
    show ?thesis
    proof (cases "length nxt > 12000")
      case True
      with Inr have "chaikin_loop c (Suc k) pts = (?step ^^ 1) (Inr pts)" by simp
      then show ?thesis by (intro exI [of _ 1]) simp
    next
      case False
      from Suc.IH [of nxt] obtain j where j: "j \<le> k"
        "chaikin_loop c k nxt = (?step ^^ j) (Inr nxt)" by blast
      have "(?step ^^ Suc j) (Inr pts) = (?step ^^ j) (?step (Inr pts))"
        by (simp only: funpow_Suc_right o_apply)
      with Inr False j(2) have "chaikin_loop c (Suc k) pts = (?step ^^ Suc j) (Inr pts)"
        by simp
      with j(1) show ?thesis by (intro exI [of _ "Suc j"]) simp
    qed
  qed
qed

lemma chaikinSmooth_passes:
  "\<exists>j\<le>m. chaikinSmooth pts m =
      ((\<lambda>res. case res of Inl e \<Rightarrow> Inl e | Inr p \<Rightarrow> chaikin_pass (hd pts = last pts) p) ^^ j)
        (Inr pts)"
proof (cases "length pts < 3")
  case True
  then have "chaikinSmooth pts m =
      ((\<lambda>res. case res of Inl e \<Rightarrow> Inl e | Inr p \<Rightarrow> chaikin_pass (hd pts = last pts) p) ^^ 0)
        (Inr pts)" by (simp add: chaikinSmooth_def)
  then show ?thesis by blast
next
  case False
  then have ne: "pts \<noteq> []" by auto
  then have "(fst (pts ! 0) = fst (pts ! (length pts - 1))
              \<and> snd (pts ! 0) = snd (pts ! (length pts - 1))) = (hd pts = last pts)"
    by (simp add: hd_conv_nth last_conv_nth prod_eq_iff)
  with False have "chaikinSmooth pts m = chaikin_loop (hd pts = last pts) m pts"
    by (simp add: chaikinSmooth_def Let_def)
  with chaikin_loop_passes [of m "hd pts = last pts" pts] show ?thesis by simp
qed

text \<open>
  Claim C8, as amended. \<open>chaikinSmooth\<close> performs at most the requested number \<open>m\<close> of
  passes, and it stops iterating once a pass has left more than 12000 points: for
  iteration counts \<open>1 \<le> k \<le> m\<close>, if the output of \<open>k\<close> iterations has more than 12000
  points then \<open>m\<close> iterations give the same output. The ceiling is tested after each pass
  only, so the first pass always runs.
\<close>

theorem chaikinSmooth_ceiling:
  "(\<exists>j\<le>m. chaikinSmooth pts m =
      ((\<lambda>res. case res of Inl e \<Rightarrow> Inl e | Inr p \<Rightarrow> chaikin_pass (hd pts = last pts) p) ^^ j)
        (Inr pts))
   \<and> (chaikinSmooth pts k = Inr out \<and> 12000 < length out \<and> 1 \<le> k \<and> k \<le> m
        \<longrightarrow> chaikinSmooth pts m = Inr out)"
proof (intro conjI impI)
  show "\<exists>j\<le>m. chaikinSmooth pts m =
      ((\<lambda>res. case res of Inl e \<Rightarrow> Inl e | Inr p \<Rightarrow> chaikin_pass (hd pts = last pts) p) ^^ j)
        (Inr pts)"
    by (rule chaikinSmooth_passes)
next
  assume a: "chaikinSmooth pts k = Inr out \<and> 12000 < length out \<and> 1 \<le> k \<and> k \<le> m"
  show "chaikinSmooth pts m = Inr out"
  proof (cases "length pts < 3")
    case True
    with a show ?thesis by (simp add: chaikinSmooth_def)
  next
    case False
    from a have b: "12000 < length out" "1 \<le> k" "k \<le> m" by simp_all
    from False a chaikin_loop_ceiling [OF _ b] show ?thesis
      by (simp add: chaikinSmooth_def Let_def)
  qed
qed

theorem chaikinSmooth_ceiling_witness:
  "\<exists>out. chaikinSmooth (replicate 12000 (0, 0) @ [(1, 0)]) 1 = Inr out \<and> 12000 < length out
         \<and> chaikinSmooth (replicate 12000 (0, 0) @ [(1, 0)]) 4 = Inr out"
proof -
  let ?big = "replicate 12000 (0, 0) @ [(1, 0)] :: pt list"
  have "3 \<le> length ?big" and "?big ! 0 \<noteq> ?big ! (length ?big - 1)"
    by (simp_all add: nth_append)
  from chaikinSmooth_open_once [OF this] obtain out where
    o: "chaikinSmooth ?big 1 = Inr out" "length out = 2 * (length ?big - 3) + 2" by blast
  from o(2) have big: "12000 < length out" by simp
  have "(1::nat) \<le> 1" and "(1::nat) \<le> 4" by simp_all
  with chaikinSmooth_ceiling [of 4 ?big 1 out] o(1) big
  have "chaikinSmooth ?big 4 = Inr out" by blast
  with o(1) big show ?thesis by blast
qed

text \<open>
  With \<open>k = 0\<close> the statement fails: an open polyline of 12001 points is returned as it is
  by zero iterations, and one iteration still runs a pass over it.
\<close>

theorem chaikinSmooth_ceiling_counterexample:
  "12000 < length (replicate 12000 (0, 0) @ [(1, 0)] :: pt list)
   \<and> (0::nat) \<le> 1
   \<and> chaikinSmooth (replicate 12000 (0, 0) @ [(1, 0)]) 0 = Inr (replicate 12000 (0, 0) @ [(1, 0)])
   \<and> chaikinSmooth (replicate 12000 (0, 0) @ [(1, 0)]) 1 \<noteq> Inr (replicate 12000 (0, 0) @ [(1, 0)])"
proof -
  let ?big = "replicate 12000 (0, 0) @ [(1, 0)] :: pt list"
  have l: "3 \<le> length ?big" and "?big ! 0 \<noteq> ?big ! (length ?big - 1)"
    by (simp_all add: nth_append)
  from chaikinSmooth_open_once [OF this] obtain out where
    o: "chaikinSmooth ?big 1 = Inr out" "length out = 2 * (length ?big - 3) + 2" by blast
  from o(2) have "length out \<noteq> length ?big" by simp
  then have "out \<noteq> ?big" by blast
  with o(1) have "chaikinSmooth ?big 1 \<noteq> Inr ?big" by simp
  moreover have "chaikinSmooth ?big 0 = Inr ?big"
    by (simp add: chaikinSmooth_def Let_def)
  ultimately show ?thesis by simp
qed

text \<open>
  Claim C9. For an open polyline of exactly three points and any iteration count
  \<open>k \<ge> 1\<close>, \<open>chaikinSmooth\<close> returns the two end points only: the middle point is dropped,
  no cut point is made, and further iterations keep the two points.
\<close>

theorem chaikinSmooth_three_open:
  assumes "a \<noteq> c" and "1 \<le> k"
  shows "chaikinSmooth [a, b, c] k = Inr [a, c]"
proof -
  from assms(2) obtain j where k: "k = Suc j" by (cases k) auto
  from assms(1) have op: "(fst a = fst c \<and> snd a = snd c) = False"
    by (simp add: prod_eq_iff)
  have pass: "chaikin_pass False [a, b, c] = Inr [a, c]"
    by (simp add: chaikin_pass_def Let_def)
  have "chaikinSmooth [a, b, c] k = chaikin_loop False k [a, b, c]"
    by (simp add: chaikinSmooth_def Let_def op)
  with pass k show ?thesis
    by (simp add: chaikin_loop_two)
qed

theorem chaikinSmooth_three_open_witness:
  "chaikinSmooth [(0, 0), (1, 1), (2, 0)] 4 = Inr [(0, 0), (2, 0)]"
  using chaikinSmooth_three_open [of "(0, 0)" "(2, 0)" 4 "(1, 1)"] by simp

section \<open>Properties of the zone classifier and the colours\<close>

text \<open>
  Claim C5. The zone is a function of the value alone, with breakpoints 15, 45, 85, 180
  and 240, each boundary value belonging to the upper zone: a value below 15 is zone I,
  from 15 and below 45 zone II, from 45 and below 85 zone III, from 85 and below 180 zone
  IV, from 180 and below 240 zone V, and from 240 on zone VI. In particular 15 is II (not
  I), 44.999 is II, 45 is III, 239 is V and 240 is VI.
\<close>

theorem assignZone_boundaries:
  "(v < 15 \<longrightarrow> assignZone v = ''I'')
   \<and> (15 \<le> v \<and> v < 45 \<longrightarrow> assignZone v = ''II'')
   \<and> (45 \<le> v \<and> v < 85 \<longrightarrow> assignZone v = ''III'')
   \<and> (85 \<le> v \<and> v < 180 \<longrightarrow> assignZone v = ''IV'')
   \<and> (180 \<le> v \<and> v < 240 \<longrightarrow> assignZone v = ''V'')
   \<and> (240 \<le> v \<longrightarrow> assignZone v = ''VI'')
   \<and> assignZone 15 = ''II'' \<and> assignZone 15 \<noteq> ''I''
   \<and> assignZone 44.999 = ''II''
   \<and> assignZone 45 = ''III''
   \<and> assignZone 85 = ''IV''
   \<and> assignZone 180 = ''V''
   \<and> assignZone 239 = ''V''
   \<and> assignZone 240 = ''VI''"
  by (simp add: assignZone_def)

theorem assignZone_boundaries_witness:
  "assignZone 14.999 = ''I'' \<and> assignZone 30 = ''II'' \<and> assignZone 60 = ''III''
   \<and> assignZone 120 = ''IV'' \<and> assignZone 200 = ''V'' \<and> assignZone 1000 = ''VI''"
  using assignZone_boundaries [of "14.999"] assignZone_boundaries [of 30]
    assignZone_boundaries [of 60] assignZone_boundaries [of 120]
    assignZone_boundaries [of 200] assignZone_boundaries [of 1000]
  by simp

text \<open>
  Claim C6. \<open>colorForThreshold\<close> gives each zone boundary the colour of the zone right
  above it: 15 has zone II's colour, 45 zone III's, 85 zone IV's, 180 zone V's, 240 and
  240.1 zone VI's; these are the colours of the zones the classifier gives the boundary
  values, and they are five different colours.
\<close>

theorem colorForThreshold_upper_zone:
  "colorForThreshold 15 = zoneColor ''II'' \<and> zoneColor ''II'' = Some ''#059669''
   \<and> colorForThreshold 45 = zoneColor ''III'' \<and> zoneColor ''III'' = Some ''#65a30d''
   \<and> colorForThreshold 85 = zoneColor ''IV'' \<and> zoneColor ''IV'' = Some ''#d97706''
   \<and> colorForThreshold 180 = zoneColor ''V'' \<and> zoneColor ''V'' = Some ''#dc2626''
   \<and> colorForThreshold 240 = zoneColor ''VI'' \<and> zoneColor ''VI'' = Some ''#7c2d12''
   \<and> colorForThreshold 240.1 = zoneColor ''VI''
   \<and> map colorForThreshold ZONE_BOUNDARIES = map (zoneColor \<circ> assignZone) ZONE_BOUNDARIES"
  by (simp add: colorForThreshold_def zoneColor_def climateZones_def assignZone_def
      ZONE_BOUNDARIES_def)

section \<open>Properties of the rounding\<close>

lemma floor_rat_numeral_div [simp]:
  "\<lfloor>(numeral a :: rat) / numeral b\<rfloor> = numeral a div numeral b"
  "\<lfloor>- ((numeral a :: rat) / numeral b)\<rfloor> = - numeral a div numeral b"
  using floor_divide_of_int_eq [of "numeral a" "numeral b", where ?'a = rat]
    floor_divide_of_int_eq [of "- numeral a" "numeral b", where ?'a = rat]
  by simp_all

text \<open>The equations that evaluate \<open>fl\<close> at a numeral.\<close>

lemmas fl_eval = fl_def nearest_def quantum_def bexp_def ilog2_def roundHalfEven_def Let_def
  log2_up.simps log2_down.simps

lemma fl_0 [simp]: "fl 0 = Fin 0"
  by (simp add: fl_def nearest_def)

lemma fl_1 [simp]: "fl 1 = Fin 1"
  by (simp add: fl_eval)

lemma fl_not_NaN [simp]: "fl x \<noteq> NaN"
  by (simp add: fl_def signedInf_def)

lemma roundHalfEven_bounds: "\<lfloor>x\<rfloor> \<le> roundHalfEven x \<and> roundHalfEven x \<le> \<lfloor>x\<rfloor> + 1"
  by (simp add: roundHalfEven_def Let_def)

lemma roundHalfEven_of_int [simp]: "roundHalfEven (of_int n) = n"
  by (simp add: roundHalfEven_def Let_def)

lemma roundHalfEven_mono:
  assumes "x \<le> y"
  shows "roundHalfEven x \<le> roundHalfEven y"
proof (cases "\<lfloor>x\<rfloor> = \<lfloor>y\<rfloor>")
  case True
  with assms have "x - of_int \<lfloor>x\<rfloor> \<le> y - of_int \<lfloor>y\<rfloor>" by simp
  with True show ?thesis by (auto simp add: roundHalfEven_def Let_def)
next
  case False
  with assms have "\<lfloor>x\<rfloor> < \<lfloor>y\<rfloor>" using floor_mono [OF assms] by simp
  with roundHalfEven_bounds [of x] roundHalfEven_bounds [of y] show ?thesis by simp
qed

lemma roundHalfEven_minus: "roundHalfEven (- x) = - roundHalfEven x"
proof (cases "x = of_int \<lfloor>x\<rfloor>")
  case True
  then have "- x = of_int (- \<lfloor>x\<rfloor>)" by simp
  then have "roundHalfEven (- x) = - \<lfloor>x\<rfloor>" by (simp only: roundHalfEven_of_int)
  moreover from True have "roundHalfEven x = \<lfloor>x\<rfloor>" by (metis roundHalfEven_of_int)
  ultimately show ?thesis by simp
next
  case False
  define f where "f = \<lfloor>x\<rfloor>"
  from False have "of_int f \<noteq> x" unfolding f_def by (rule not_sym)
  moreover have "of_int f \<le> x" unfolding f_def by (rule of_int_floor_le)
  ultimately have lo: "of_int f < x" by (rule order.not_eq_order_implies_strict)
  have hi: "x < of_int f + 1" unfolding f_def by linarith
  from lo hi have nf: "\<lfloor>- x\<rfloor> = - f - 1" by (intro floor_unique) simp_all
  have d: "- x - of_int (- f - 1) = 1 - (x - of_int f)" by simp
  show ?thesis
    unfolding roundHalfEven_def Let_def nf d f_def [symmetric]
    using lo hi by auto
qed

lemma powi2_step: "(2::rat) powi (k + 1) = 2 powi k * 2"
  by (simp add: power_int_add_1)

lemma powi2_split: "(2::rat) powi (e + k) = 2 powi e * 2 powi k"
  by (simp add: power_int_add)

lemma log2_up_bounds:
  "1 \<le> x \<Longrightarrow> 2 powi (log2_up x) \<le> x \<and> x < 2 powi (log2_up x + 1)"
proof (induction x rule: log2_up.induct)
  case (1 x)
  show ?case
  proof (cases "x < 2")
    case True
    with "1.prems" show ?thesis by (subst (1 2) log2_up.simps) simp
  next
    case False
    then have "1 \<le> x / 2" by simp
    from "1.IH" [OF False this]
    have "2 powi (log2_up (x / 2)) \<le> x / 2" "x / 2 < 2 powi (log2_up (x / 2) + 1)"
      by simp_all
    then have "2 powi (log2_up (x / 2)) * 2 \<le> x" "x < 2 powi (log2_up (x / 2) + 1) * 2"
      by simp_all
    moreover have "log2_up x = log2_up (x / 2) + 1" using False by (subst log2_up.simps) simp
    ultimately show ?thesis by (simp only: powi2_step)
  qed
qed

lemma log2_down_bounds:
  "0 < x \<Longrightarrow> x < 2 \<Longrightarrow> 2 powi (log2_down x) \<le> x \<and> x < 2 powi (log2_down x + 1)"
proof (induction x rule: log2_down.induct)
  case (1 x)
  show ?case
  proof (cases "1 \<le> x")
    case True
    with "1.prems" show ?thesis by (subst (1 2) log2_down.simps) simp
  next
    case False
    with "1.prems" have c: "\<not> (x \<le> 0 \<or> 1 \<le> x)" and p: "0 < 2 * x" "2 * x < 2" by simp_all
    from "1.IH" [OF c p]
    have "2 powi (log2_down (2 * x)) \<le> 2 * x" "2 * x < 2 powi (log2_down (2 * x) + 1)"
      by simp_all
    moreover have "log2_down (2 * x) = log2_down x + 1" using c by (subst (2) log2_down.simps) simp
    ultimately have "2 powi (log2_down x) * 2 \<le> 2 * x" "2 * x < 2 powi (log2_down x + 1) * 2"
      by (simp_all only: powi2_step)
    then show ?thesis by simp
  qed
qed

lemma ilog2_bounds:
  assumes "0 < x"
  shows "2 powi (ilog2 x) \<le> x" and "x < 2 powi (ilog2 x + 1)"
  using assms log2_up_bounds [of x] log2_down_bounds [of x]
  by (auto simp add: ilog2_def)

lemma ilog2_mono:
  assumes "0 < x" and "x \<le> y"
  shows "ilog2 x \<le> ilog2 y"
proof -
  from assms have "0 < y" by simp
  from ilog2_bounds(1) [OF assms(1)] assms(2) ilog2_bounds(2) [OF \<open>0 < y\<close>]
  have lt: "(2::rat) powi (ilog2 x) < 2 powi (ilog2 y + 1)" by simp
  have "ilog2 x < ilog2 y + 1"
  proof (rule ccontr)
    assume "\<not> ilog2 x < ilog2 y + 1"
    then have "ilog2 y + 1 \<le> ilog2 x" by simp
    then have "(2::rat) powi (ilog2 y + 1) \<le> 2 powi (ilog2 x)"
      by (rule power_int_increasing) simp
    with lt show False by simp
  qed
  then show ?thesis by simp
qed

lemma quantum_pos: "0 < quantum x"
  by (simp add: quantum_def)

lemma bexp_upper:
  assumes "0 < x"
  shows "x < 2 powi (bexp x + 1)"
proof -
  from assms have "x < 2 powi (ilog2 \<bar>x\<bar> + 1)" using ilog2_bounds(2) [of x] by simp
  also have "(2::rat) powi (ilog2 \<bar>x\<bar> + 1) \<le> 2 powi (bexp x + 1)"
    by (rule power_int_increasing) (simp_all add: bexp_def)
  finally show ?thesis .
qed

lemma bexp_lower:
  assumes "0 < x" and "- 1022 < bexp x"
  shows "2 powi (bexp x) \<le> x"
proof -
  from assms(2) have "bexp x = ilog2 \<bar>x\<bar>" by (simp add: bexp_def max_def split: if_splits)
  with assms(1) ilog2_bounds(1) [of x] show ?thesis by simp
qed

lemma bexp_mono:
  assumes "0 < x" and "x \<le> y"
  shows "bexp x \<le> bexp y"
  using ilog2_mono [OF assms] assms by (simp add: bexp_def max_def)

lemma nearest_pos_eq:
  "x \<noteq> 0 \<Longrightarrow> nearest x = of_int (roundHalfEven (x / quantum x)) * quantum x"
  by (simp add: nearest_def)

lemma nearest_upper:
  assumes "0 < x"
  shows "nearest x \<le> 2 powi (bexp x + 1)"
proof -
  have split: "(2::rat) powi (bexp x + 1) = 2 powi 53 * quantum x"
  proof -
    have "(2::rat) powi (bexp x + 1) = 2 powi (53 + (bexp x - 52))"
      by (rule arg_cong [where f = "\<lambda>k. 2 powi k"]) simp
    also have "\<dots> = 2 powi 53 * 2 powi (bexp x - 52)" by (rule powi2_split)
    finally show ?thesis by (simp only: quantum_def)
  qed
  from bexp_upper [OF assms] split have "x \<le> 2 powi 53 * quantum x" by simp
  with quantum_pos [of x] have "x / quantum x \<le> of_int (2 ^ 53)"
    by (simp add: pos_divide_le_eq)
  from roundHalfEven_mono [OF this] have "roundHalfEven (x / quantum x) \<le> 2 ^ 53"
    by (simp only: roundHalfEven_of_int)
  then have "(of_int (roundHalfEven (x / quantum x)) :: rat) \<le> of_int (2 ^ 53)"
    by (simp only: of_int_le_iff)
  with quantum_pos [of x]
  have "of_int (roundHalfEven (x / quantum x)) * quantum x \<le> of_int (2 ^ 53) * quantum x"
    by (intro mult_right_mono) simp_all
  with assms split show ?thesis by (simp add: nearest_pos_eq)
qed

lemma nearest_lower:
  assumes "0 < x" and "- 1022 < bexp x"
  shows "2 powi (bexp x) \<le> nearest x"
proof -
  have split: "(2::rat) powi (bexp x) = 2 powi 52 * quantum x"
  proof -
    have "(2::rat) powi (bexp x) = 2 powi (52 + (bexp x - 52))"
      by (rule arg_cong [where f = "\<lambda>k. 2 powi k"]) simp
    also have "\<dots> = 2 powi 52 * 2 powi (bexp x - 52)" by (rule powi2_split)
    finally show ?thesis by (simp only: quantum_def)
  qed
  from bexp_lower [OF assms] split have "2 powi 52 * quantum x \<le> x" by simp
  with quantum_pos [of x] have "of_int (2 ^ 52) \<le> x / quantum x"
    by (simp add: pos_le_divide_eq)
  from roundHalfEven_mono [OF this] have "2 ^ 52 \<le> roundHalfEven (x / quantum x)"
    by (simp only: roundHalfEven_of_int)
  then have "(of_int (2 ^ 52) :: rat) \<le> of_int (roundHalfEven (x / quantum x))"
    by (simp only: of_int_le_iff)
  with quantum_pos [of x]
  have "of_int (2 ^ 52) * quantum x \<le> of_int (roundHalfEven (x / quantum x)) * quantum x"
    by (intro mult_right_mono) simp_all
  with assms split show ?thesis by (simp add: nearest_pos_eq)
qed

lemma nearest_nonneg:
  assumes "0 \<le> x"
  shows "0 \<le> nearest x"
proof (cases "x = 0")
  case True
  then show ?thesis by (simp add: nearest_def)
next
  case False
  with assms quantum_pos [of x] have "of_int 0 \<le> x / quantum x" by simp
  from roundHalfEven_mono [OF this] have "0 \<le> roundHalfEven (x / quantum x)"
    by (simp only: roundHalfEven_of_int)
  with quantum_pos [of x] False show ?thesis by (simp add: nearest_pos_eq)
qed

lemma nearest_minus: "nearest (- x) = - nearest x"
  by (simp add: nearest_def quantum_def bexp_def roundHalfEven_minus)

lemma nearest_mono_pos:
  assumes "0 < x" and "x \<le> y"
  shows "nearest x \<le> nearest y"
proof -
  from assms have y: "0 < y" by simp
  from bexp_mono [OF assms] have "bexp x = bexp y \<or> bexp x < bexp y" by auto
  then show ?thesis
  proof
    assume "bexp x = bexp y"
    then have q: "quantum x = quantum y" by (simp add: quantum_def)
    from assms(2) quantum_pos [of y] have "x / quantum y \<le> y / quantum y"
      by (simp add: divide_right_mono)
    from roundHalfEven_mono [OF this]
    have "(of_int (roundHalfEven (x / quantum y)) :: rat) \<le> of_int (roundHalfEven (y / quantum y))"
      by (simp only: of_int_le_iff)
    with quantum_pos [of y]
    have "of_int (roundHalfEven (x / quantum y)) * quantum y
          \<le> of_int (roundHalfEven (y / quantum y)) * quantum y"
      by (intro mult_right_mono) simp_all
    with assms(1) y q show ?thesis by (simp add: nearest_pos_eq)
  next
    assume lt: "bexp x < bexp y"
    have "- 1022 \<le> bexp x" by (simp add: bexp_def)
    with lt have normal: "- 1022 < bexp y" by simp
    from lt have "bexp x + 1 \<le> bexp y" by simp
    then have "(2::rat) powi (bexp x + 1) \<le> 2 powi (bexp y)"
      by (rule power_int_increasing) simp
    with nearest_upper [OF assms(1)] nearest_lower [OF y normal] show ?thesis by simp
  qed
qed

lemma nearest_mono:
  assumes "x \<le> y"
  shows "nearest x \<le> nearest y"
proof (cases "0 < x")
  case True
  from nearest_mono_pos [OF this assms] show ?thesis .
next
  case False
  then have x: "x \<le> 0" by simp
  show ?thesis
  proof (cases "0 \<le> y")
    case True
    from x have "0 \<le> nearest (- x)" by (intro nearest_nonneg) simp
    then have "nearest x \<le> 0" by (simp add: nearest_minus)
    with nearest_nonneg [OF True] show ?thesis by simp
  next
    case False
    with assms have "0 < - y" "- y \<le> - x" by simp_all
    from nearest_mono_pos [OF this] show ?thesis by (simp add: nearest_minus)
  qed
qed

text \<open>Rounding is monotone: a larger exact result never rounds to a smaller double.\<close>

lemma fl_mono:
  assumes "x \<le> y"
  shows "js_le (fl x) (fl y)"
proof -
  note n = nearest_mono [OF assms]
  have pos: "0 \<le> nearest z" if "0 < z" for z using that by (intro nearest_nonneg) simp
  have neg: "nearest z \<le> 0" if "z \<le> 0" for z
  proof -
    from that have "0 \<le> nearest (- z)" by (intro nearest_nonneg) simp
    then show ?thesis by (simp add: nearest_minus)
  qed
  show ?thesis
  proof (cases "2 ^ 1024 \<le> \<bar>nearest x\<bar>")
    case ox: True
    show ?thesis
    proof (cases "0 < x")
      case True
      with assms have y: "0 < y" by simp
      from pos [OF True] ox have "2 ^ 1024 \<le> nearest x" by simp
      with n pos [OF y] have "2 ^ 1024 \<le> \<bar>nearest y\<bar>" by simp
      with ox True y show ?thesis by (simp add: fl_def signedInf_def)
    next
      case False
      with ox show ?thesis by (cases "fl y") (auto simp add: fl_def signedInf_def split: if_splits)
    qed
  next
    case nx: False
    show ?thesis
    proof (cases "2 ^ 1024 \<le> \<bar>nearest y\<bar>")
      case oy: True
      show ?thesis
      proof (cases "0 < y")
        case True
        with nx oy show ?thesis by (simp add: fl_def signedInf_def)
      next
        case False
        then have "y \<le> 0" by simp
        from neg [OF this] oy have "nearest y \<le> - (2 ^ 1024)" by simp
        with n have "2 ^ 1024 \<le> \<bar>nearest x\<bar>" by simp
        with nx show ?thesis by simp
      qed
    next
      case False
      with nx n show ?thesis by (simp add: fl_def)
    qed
  qed
qed

section \<open>Properties of the rasterizer\<close>

lemma sortedDistinct_eq: "sortedDistinct xs = sorted_list_of_set (set xs)"
  by (simp add: sortedDistinct_def sorted_list_of_set_sort_remdups)

lemma sortedDistinct_props:
  "sorted (sortedDistinct xs)" "distinct (sortedDistinct xs)"
  "set (sortedDistinct xs) = set xs" "length (sortedDistinct xs) = card (set xs)"
  by (simp_all add: sortedDistinct_eq)

lemma js_Map_distinct:
  "distinct (map fst entries) \<Longrightarrow> js_Map entries = map_of entries"
proof (induction entries)
  case Nil
  then show ?case by (simp add: js_Map_def)
next
  case (Cons e es)
  then have "map_of (rev es) = map_of es" and "map_of es (fst e) = None"
    by (simp_all add: js_Map_def map_of_eq_None_iff)
  then show ?case
    by (cases e) (auto simp add: js_Map_def map_add_def fun_eq_iff split: option.splits)
qed

lemma js_Map_index:
  assumes "distinct xs" and "i < length xs"
  shows "js_Map (zip xs [0 ..< length xs]) (xs ! i) = Some i"
proof -
  have "distinct (map fst (zip xs [0 ..< length xs]))" using assms(1) by simp
  then have "js_Map (zip xs [0 ..< length xs]) = map_of (zip xs [0 ..< length xs])"
    by (rule js_Map_distinct)
  with assms show ?thesis
    by (simp add: map_of_zip_nth)
qed

lemma cell_index_inj:
  assumes "x + y * w = x' + y' * w" and "x < w" and "x' < w"
  shows "x = x' \<and> y = (y'::nat)"
proof -
  from assms(1) have "(x + y * w) mod w = (x' + y' * w) mod w" 
    and "(x + y * w) div w = (x' + y' * w) div w" by simp_all
  with assms(2,3) show ?thesis by simp
qed

lemma cell_index_bound:
  assumes "x < w" and "y < (h::nat)"
  shows "x + y * w < w * h"
proof -
  from assms(2) have "Suc y \<le> h" by simp
  then have "Suc y * w \<le> h * w" by (rule mult_le_mono1)
  with assms(1) show ?thesis by (simp add: mult.commute)
qed

lemma fold_update_length:
  "length (fold (\<lambda>p vs. vs[f p := g p]) ps vals) = length vals"
  by (induction ps arbitrary: vals) simp_all

lemma fold_update_other:
  "k \<notin> f ` set ps \<Longrightarrow> fold (\<lambda>p vs. vs[f p := g p]) ps vals ! k = vals ! k"
  by (induction ps arbitrary: vals) simp_all

lemma fold_update_nth:
  assumes "distinct (map f ps)" and "p \<in> set ps" and "\<forall>q\<in>set ps. f q < length vals"
  shows "fold (\<lambda>p vs. vs[f p := g p]) ps vals ! f p = g p"
  using assms
proof (induction ps arbitrary: vals)
  case Nil
  then show ?case by simp
next
  case (Cons q qs)
  show ?case
  proof (cases "p \<in> set qs")
    case True
    with Cons.prems Cons.IH [of "vals[f q := g q]"] show ?thesis by simp
  next
    case False
    with Cons.prems have pq: "p = q" by simp
    with Cons.prems have "f q \<notin> f ` set qs" by auto
    then have "fold (\<lambda>p vs. vs[f p := g p]) qs (vals[f q := g q]) ! f q = vals[f q := g q] ! f q"
      by (rule fold_update_other)
    with pq Cons.prems show ?thesis by simp
  qed
qed

lemma fold_storeSample:
  assumes "\<forall>p\<in>set ps. \<exists>yi xi. latIndex (lat p) = Some yi \<and> lonIndex (lon p) = Some xi
                                 \<and> xi + yi * w < length vals"
  shows "fold (storeSample latIndex lonIndex w) ps vals =
         fold (\<lambda>p vs. vs[the (lonIndex (lon p)) + the (latIndex (lat p)) * w := CellNum (wi p)]) ps vals"
  using assms
proof (induction ps arbitrary: vals)
  case Nil
  then show ?case by simp
next
  case (Cons q qs)
  from Cons.prems obtain yi xi where
    q: "latIndex (lat q) = Some yi" "lonIndex (lon q) = Some xi" "xi + yi * w < length vals"
    by auto
  then have step: "storeSample latIndex lonIndex w q vals = vals[xi + yi * w := CellNum (wi q)]"
    by (simp add: storeSample_def js_store_def)
  have "\<forall>p\<in>set qs. \<exists>yj xj. latIndex (lat p) = Some yj \<and> lonIndex (lon p) = Some xj
                                 \<and> xj + yj * w < length (vals[xi + yi * w := CellNum (wi q)])"
    using Cons.prems by simp
  from Cons.IH [OF this] step q show ?case by simp
qed

lemma buildRasterFromPoints_Some:
  assumes "ps \<noteq> []"
    and "length (sortedDistinct (map lon ps)) * length (sortedDistinct (map lat ps)) < 2 ^ 32"
  shows "buildRasterFromPoints (Some ps) =
    Inr (Some \<lparr> rvalues = fold (storeSample (js_Map (zip (sortedDistinct (map lat ps)) [0 ..< length (sortedDistinct (map lat ps))]))
                                       (js_Map (zip (sortedDistinct (map lon ps)) [0 ..< length (sortedDistinct (map lon ps))]))
                                       (length (sortedDistinct (map lon ps)))) ps
                       (replicate (length (sortedDistinct (map lon ps)) * length (sortedDistinct (map lat ps))) CellNaN),
            width = length (sortedDistinct (map lon ps)),
            height = length (sortedDistinct (map lat ps)),
            lats = sortedDistinct (map lat ps),
            lons = sortedDistinct (map lon ps),
            dLat = (if length (sortedDistinct (map lat ps)) \<ge> 2
                    then plusToFixed3 (js_sub (Fin (sortedDistinct (map lat ps) ! 1))
                                              (Fin (sortedDistinct (map lat ps) ! 0)))
                    else fl 0.1),
            dLon = (if length (sortedDistinct (map lon ps)) \<ge> 2
                    then plusToFixed3 (js_sub (Fin (sortedDistinct (map lon ps) ! 1))
                                              (Fin (sortedDistinct (map lon ps) ! 0)))
                    else fl 0.1) \<rparr>)"
  using assms by (simp add: buildRasterFromPoints_def Let_def)

lemma buildRasterFromPoints_RangeError:
  assumes "ps \<noteq> []"
    and "2 ^ 32 \<le> length (sortedDistinct (map lon ps)) * length (sortedDistinct (map lat ps))"
  shows "buildRasterFromPoints (Some ps) = Inl RangeError"
  using assms by (simp add: buildRasterFromPoints_def Let_def)

lemma buildRasterFromPoints_axes:
  assumes "buildRasterFromPoints points = Inr (Some r)"
  shows "lats r = sorted_list_of_set (lat ` set (the points))"
    and "lons r = sorted_list_of_set (lon ` set (the points))"
    and "height r = length (lats r)" and "width r = length (lons r)"
    and "sorted (lats r)" and "sorted (lons r)"
proof -
  from assms obtain ps where ps: "points = Some ps" "ps \<noteq> []"
    "length (sortedDistinct (map lon ps)) * length (sortedDistinct (map lat ps)) < 2 ^ 32"
    by (auto simp add: buildRasterFromPoints_def Let_def split: option.splits if_splits)
  from assms buildRasterFromPoints_Some [OF ps(2,3)] ps(1)
  have r: "lats r = sortedDistinct (map lat ps)" "lons r = sortedDistinct (map lon ps)"
     "height r = length (sortedDistinct (map lat ps))" "width r = length (sortedDistinct (map lon ps))"
    by auto
  with ps show "lats r = sorted_list_of_set (lat ` set (the points))"
    and "lons r = sorted_list_of_set (lon ` set (the points))"
    and "height r = length (lats r)" and "width r = length (lons r)"
    and "sorted (lats r)" and "sorted (lons r)"
    by (simp_all add: sortedDistinct_eq)
qed

lemma axis_position:
  assumes "v \<in> set xs"
  shows "\<exists>i. i < length (sortedDistinct xs) \<and> sortedDistinct xs ! i = v
             \<and> js_Map (zip (sortedDistinct xs) [0 ..< length (sortedDistinct xs)]) v = Some i"
proof -
  from assms have "v \<in> set (sortedDistinct xs)" by (simp add: sortedDistinct_props)
  then obtain i where i: "i < length (sortedDistinct xs)" "sortedDistinct xs ! i = v"
    by (auto simp add: in_set_conv_nth)
  from js_Map_index [OF sortedDistinct_props(2) i(1)] i show ?thesis by auto
qed

text \<open>
  Claim C3, as amended. For a non-empty sample list without duplicate \<open>(lat, lon)\<close>
  pairs whose grid has fewer than \<open>2^32\<close> cells (distinct latitudes times distinct
  longitudes), \<open>buildRasterFromPoints\<close> returns a raster whose axes are the distinct
  latitudes and longitudes in ascending order, whose height and width are their
  numbers, and whose value array has \<open>width * height\<close> cells; every sample's value stands
  at \<open>x + y * width\<close>, where \<open>y\<close> and \<open>x\<close> are the positions of its latitude and longitude
  on the axes; and two different samples never share a cell.
\<close>

theorem buildRasterFromPoints_grid:
  assumes "ps \<noteq> []" and "distinct (map (\<lambda>p. (lat p, lon p)) ps)"
    and "card (lat ` set ps) * card (lon ` set ps) < 2 ^ 32"
  shows "\<exists>r. buildRasterFromPoints (Some ps) = Inr (Some r)
    \<and> lats r = sorted_list_of_set (lat ` set ps)
    \<and> lons r = sorted_list_of_set (lon ` set ps)
    \<and> height r = card (lat ` set ps)
    \<and> width r = card (lon ` set ps)
    \<and> length (rvalues r) = width r * height r
    \<and> (\<forall>p\<in>set ps. \<exists>y x. y < height r \<and> x < width r
            \<and> lats r ! y = lat p \<and> lons r ! x = lon p
            \<and> rvalues r ! (x + y * width r) = CellNum (wi p))
    \<and> (\<forall>i j y x y' x'. i < length ps \<and> j < length ps \<and> i \<noteq> j
            \<and> y < height r \<and> x < width r \<and> lats r ! y = lat (ps ! i) \<and> lons r ! x = lon (ps ! i)
            \<and> y' < height r \<and> x' < width r \<and> lats r ! y' = lat (ps ! j) \<and> lons r ! x' = lon (ps ! j)
            \<longrightarrow> x + y * width r \<noteq> x' + y' * width r)"
proof -
  define La where "La = sortedDistinct (map lat ps)"
  define Lo where "Lo = sortedDistinct (map lon ps)"
  define latIndex where "latIndex = js_Map (zip La [0 ..< length La])"
  define lonIndex where "lonIndex = js_Map (zip Lo [0 ..< length Lo])"
  define idx where "idx = (\<lambda>p::sample. the (lonIndex (lon p)) + the (latIndex (lat p)) * length Lo)"
  define init where "init = replicate (length Lo * length La) CellNaN"
  define r where "r = \<lparr> rvalues = fold (storeSample latIndex lonIndex (length Lo)) ps init,
            width = length Lo, height = length La, lats = La, lons = Lo,
            dLat = (if length La \<ge> 2 then plusToFixed3 (js_sub (Fin (La ! 1)) (Fin (La ! 0)))
                    else fl 0.1),
            dLon = (if length Lo \<ge> 2 then plusToFixed3 (js_sub (Fin (Lo ! 1)) (Fin (Lo ! 0)))
                    else fl 0.1) \<rparr>"
  have "length La = card (lat ` set ps)" and "length Lo = card (lon ` set ps)"
    by (simp_all add: La_def Lo_def sortedDistinct_props)
  with assms(3) have cells: "length Lo * length La < 2 ^ 32" by (simp add: mult.commute)
  have built: "buildRasterFromPoints (Some ps) = Inr (Some r)"
    unfolding r_def init_def latIndex_def lonIndex_def
    using cells unfolding La_def Lo_def
    by (rule buildRasterFromPoints_Some [OF assms(1)])
  have dLa: "distinct La" and dLo: "distinct Lo"
    by (simp_all add: La_def Lo_def sortedDistinct_props)
  have pos: "\<exists>y x. y < length La \<and> x < length Lo \<and> La ! y = lat p \<and> Lo ! x = lon p
                  \<and> latIndex (lat p) = Some y \<and> lonIndex (lon p) = Some x"
    if "p \<in> set ps" for p
  proof -
    from that have "lat p \<in> set (map lat ps)" and "lon p \<in> set (map lon ps)" by simp_all
    from axis_position [OF this(1)] axis_position [OF this(2)] show ?thesis
      unfolding La_def Lo_def latIndex_def lonIndex_def by blast
  qed
  have idx_eq: "idx p = x + y * length Lo"
    if "p \<in> set ps" "y < length La" "x < length Lo" "La ! y = lat p" "Lo ! x = lon p" for p y x
  proof -
    from js_Map_index [OF dLa that(2)] that(4) have "latIndex (lat p) = Some y"
      by (simp add: latIndex_def)
    moreover from js_Map_index [OF dLo that(3)] that(5) have "lonIndex (lon p) = Some x"
      by (simp add: lonIndex_def)
    ultimately show ?thesis by (simp add: idx_def)
  qed
  have pre: "\<forall>p\<in>set ps. \<exists>yi xi. latIndex (lat p) = Some yi \<and> lonIndex (lon p) = Some xi
                                 \<and> xi + yi * length Lo < length init"
  proof
    fix p assume "p \<in> set ps"
    from pos [OF this] obtain y x where
      "y < length La" "x < length Lo" "latIndex (lat p) = Some y" "lonIndex (lon p) = Some x"
      by blast
    with cell_index_bound [of x "length Lo" y "length La"]
    show "\<exists>yi xi. latIndex (lat p) = Some yi \<and> lonIndex (lon p) = Some xi
                                 \<and> xi + yi * length Lo < length init"
      by (simp add: init_def)
  qed
  have vals: "rvalues r = fold (\<lambda>p vs. vs[idx p := CellNum (wi p)]) ps init"
    unfolding r_def idx_def using fold_storeSample [OF pre] by simp
  have bound: "\<forall>q\<in>set ps. idx q < length init"
  proof
    fix q assume "q \<in> set ps"
    with pre show "idx q < length init" by (auto simp add: idx_def)
  qed
  have same: "lat p = lat q \<and> lon p = lon q"
    if "p \<in> set ps" "q \<in> set ps" "idx p = idx q" for p q
  proof -
    from pos [OF that(1)] obtain y x where
      p: "y < length La" "x < length Lo" "La ! y = lat p" "Lo ! x = lon p" by blast
    from pos [OF that(2)] obtain y' x' where
      q: "y' < length La" "x' < length Lo" "La ! y' = lat q" "Lo ! x' = lon q" by blast
    from idx_eq [OF that(1) p] idx_eq [OF that(2) q] that(3)
    have "x + y * length Lo = x' + y' * length Lo" by simp
    from cell_index_inj [OF this p(2) q(2)] p q show ?thesis by auto
  qed
  from assms(2) have dps: "distinct ps" and inj: "inj_on (\<lambda>p. (lat p, lon p)) (set ps)"
    by (simp_all add: distinct_map)
  have "inj_on idx (set ps)"
  proof (rule inj_onI)
    fix p q assume pq: "p \<in> set ps" "q \<in> set ps" "idx p = idx q"
    from same [OF this] have "(lat p, lon p) = (lat q, lon q)" by simp
    with inj pq show "p = q" by (auto dest: inj_onD)
  qed
  with dps have didx: "distinct (map idx ps)" by (simp add: distinct_map)
  have cells: "\<forall>p\<in>set ps. \<exists>y x. y < height r \<and> x < width r
            \<and> lats r ! y = lat p \<and> lons r ! x = lon p
            \<and> rvalues r ! (x + y * width r) = CellNum (wi p)"
  proof
    fix p assume p: "p \<in> set ps"
    from pos [OF p] obtain y x where
      yx: "y < length La" "x < length Lo" "La ! y = lat p" "Lo ! x = lon p" by blast
    from fold_update_nth [OF didx p bound, of "\<lambda>p. CellNum (wi p)"] vals
    have "rvalues r ! idx p = CellNum (wi p)" by simp
    with idx_eq [OF p yx] have "rvalues r ! (x + y * length Lo) = CellNum (wi p)" by simp
    with yx show "\<exists>y x. y < height r \<and> x < width r
            \<and> lats r ! y = lat p \<and> lons r ! x = lon p
            \<and> rvalues r ! (x + y * width r) = CellNum (wi p)"
      by (auto simp add: r_def)
  qed
  have nocoll: "\<forall>i j y x y' x'. i < length ps \<and> j < length ps \<and> i \<noteq> j
            \<and> y < height r \<and> x < width r \<and> lats r ! y = lat (ps ! i) \<and> lons r ! x = lon (ps ! i)
            \<and> y' < height r \<and> x' < width r \<and> lats r ! y' = lat (ps ! j) \<and> lons r ! x' = lon (ps ! j)
            \<longrightarrow> x + y * width r \<noteq> x' + y' * width r"
  proof (intro allI impI notI)
    fix i j y x y' x'
    assume h: "i < length ps \<and> j < length ps \<and> i \<noteq> j
            \<and> y < height r \<and> x < width r \<and> lats r ! y = lat (ps ! i) \<and> lons r ! x = lon (ps ! i)
            \<and> y' < height r \<and> x' < width r \<and> lats r ! y' = lat (ps ! j) \<and> lons r ! x' = lon (ps ! j)"
      and e: "x + y * width r = x' + y' * width r"
    from h have xw: "x < length Lo" "x' < length Lo" by (simp_all add: r_def)
    from e have "x + y * length Lo = x' + y' * length Lo" by (simp add: r_def)
    from cell_index_inj [OF this xw] have "x = x'" "y = y'" by simp_all
    with h have "(lat (ps ! i), lon (ps ! i)) = (lat (ps ! j), lon (ps ! j))" by auto
    with h have "map (\<lambda>p. (lat p, lon p)) ps ! i = map (\<lambda>p. (lat p, lon p)) ps ! j" by simp
    moreover from h have "i < length (map (\<lambda>p. (lat p, lon p)) ps)"
      and "j < length (map (\<lambda>p. (lat p, lon p)) ps)" by simp_all
    ultimately have "i = j" using assms(2) by (simp only: nth_eq_iff_index_eq)
    with h show False by simp
  qed
  have "lats r = sorted_list_of_set (lat ` set ps)" "lons r = sorted_list_of_set (lon ` set ps)"
    "height r = card (lat ` set ps)" "width r = card (lon ` set ps)"
    by (simp_all add: r_def La_def Lo_def sortedDistinct_eq)
  moreover have "length (rvalues r) = width r * height r"
    using vals by (simp add: fold_update_length init_def r_def)
  ultimately show ?thesis using built cells nocoll by blast
qed

theorem buildRasterFromPoints_grid_witness:
  "\<exists>r. buildRasterFromPoints
          (Some [\<lparr> lat = 35, lon = 139, wi = 50, zone = ''III'' \<rparr>,
                 \<lparr> lat = 35.1, lon = 139, wi = 60, zone = ''III'' \<rparr>,
                 \<lparr> lat = 35.1, lon = 139.2, wi = 90, zone = ''IV'' \<rparr>]) = Inr (Some r)
       \<and> height r = 2 \<and> width r = 2 \<and> length (rvalues r) = 4"
proof -
  let ?ps = "[\<lparr> lat = 35, lon = 139, wi = 50, zone = ''III'' \<rparr>,
              \<lparr> lat = 35.1, lon = 139, wi = 60, zone = ''III'' \<rparr>,
              \<lparr> lat = 35.1, lon = 139.2, wi = 90, zone = ''IV'' \<rparr>]"
  have a: "?ps \<noteq> []" by simp
  have b: "distinct (map (\<lambda>p. (lat p, lon p)) ?ps)" by simp
  have cards: "card (lat ` set ?ps) = 2" "card (lon ` set ?ps) = 2" by simp_all
  then have c: "card (lat ` set ?ps) * card (lon ` set ?ps) < 2 ^ 32" by simp
  from buildRasterFromPoints_grid [OF a b c] obtain r where
    r: "buildRasterFromPoints (Some ?ps) = Inr (Some r)"
       "height r = card (lat ` set ?ps)" "width r = card (lon ` set ?ps)"
       "length (rvalues r) = width r * height r"
    by blast
  with cards show ?thesis by simp
qed

text \<open>
  Without the bound on the cells the statement fails: 65536 samples on a diagonal, all
  with different latitudes and longitudes, make a grid of \<open>2^32\<close> cells, and
  \<open>new Array(width * height)\<close> throws.
\<close>

theorem buildRasterFromPoints_grid_counterexample:
  "map (\<lambda>i. \<lparr> lat = of_nat i, lon = of_nat i, wi = 0, zone = ''I'' \<rparr>) [0 ..< 65536] \<noteq> []
   \<and> distinct (map (\<lambda>p. (lat p, lon p))
        (map (\<lambda>i. \<lparr> lat = of_nat i, lon = of_nat i, wi = 0, zone = ''I'' \<rparr>) [0 ..< 65536]))
   \<and> buildRasterFromPoints
        (Some (map (\<lambda>i. \<lparr> lat = of_nat i, lon = of_nat i, wi = 0, zone = ''I'' \<rparr>) [0 ..< 65536]))
      = Inl RangeError"
proof -
  define diag :: "sample list" where
    "diag = map (\<lambda>i. \<lparr> lat = of_nat i, lon = of_nat i, wi = 0, zone = ''I'' \<rparr>) [0 ..< 65536]"
  have inj: "inj_on (of_nat :: nat \<Rightarrow> rat) A" for A by (simp add: inj_on_def)
  have len: "length diag = 65536" by (simp add: diag_def)
  then have ne: "diag \<noteq> []" by auto
  have la: "map lat diag = map of_nat [0 ..< 65536]"
    and lo: "map lon diag = map of_nat [0 ..< 65536]"
    by (simp_all add: diag_def o_def)
  have "card ((of_nat :: nat \<Rightarrow> rat) ` {0 ..< 65536}) = card {0 ..< 65536 :: nat}"
    by (rule card_image) (rule inj)
  then have n: "length (sortedDistinct (map (of_nat :: nat \<Rightarrow> rat) [0 ..< 65536])) = 65536"
    by (simp add: sortedDistinct_props(4))
  have "distinct (map (\<lambda>i. (of_nat i :: rat, of_nat i :: rat)) [0 ..< 65536])"
    by (simp add: distinct_map inj_on_def)
  then have d: "distinct (map (\<lambda>p. (lat p, lon p)) diag)"
    by (simp add: diag_def o_def)
  have "(2::nat) ^ 32 \<le> length (sortedDistinct (map lon diag)) * length (sortedDistinct (map lat diag))"
    by (simp add: la lo n)
  from buildRasterFromPoints_RangeError [OF ne this] ne d show ?thesis
    by (simp add: diag_def)
qed

section \<open>Properties of the reprojection\<close>






section \<open>Properties of the contour stage\<close>

lemma clamp_number:
  assumes "0 \<le> m"
  shows "Math_max (Fin 0) (Math_min (Fin m) y) = NaN
       \<or> (\<exists>c. Math_max (Fin 0) (Math_min (Fin m) y) = Fin c \<and> 0 \<le> c \<and> c \<le> m)"
  using assms by (cases y) (auto simp add: Math_max_def Math_min_def)


lemma between_0_1:
  assumes "js_le (Fin 0) T" and "js_le T (Fin 1)"
  obtains t where "T = Fin t" and "0 \<le> t" and "t \<le> 1"
  using assms by (cases T) simp_all

text \<open>
  A finite reprojection lies between the first axis value and the reprojection of the
  last grid index: the clamp puts the fraction between 0 and 1, and rounding is monotone.
\<close>

lemma reproject_bounds:
  fixes xs :: "rat list" and n :: nat
  defines "R \<equiv> \<lambda>y. js_add (js_nth xs 0)
           (js_mul (if n = 1 then Fin 0
                    else js_div (Math_max (Fin 0) (Math_min (Fin (of_int (int n - 1))) y))
                           (Fin (of_int (int n - 1))))
              (js_sub (js_nth xs (int n - 1)) (js_nth xs 0)))"
  assumes "sorted xs" and "length xs = n" and "2 \<le> n" and "fl (xs ! 0) = Fin (xs ! 0)"
    and "R y = Fin v"
  shows "xs ! 0 \<le> v \<and> js_le (Fin v) (R (Fin (of_nat (n - 1))))"
proof -
  define a b m where "a = xs ! 0" and "b = xs ! (n - 1)" and "m = (of_int (int n - 1) :: rat)"
  from assms(2,3,4) have ab: "a \<le> b" by (simp add: sorted_iff_nth_mono a_def b_def)
  from assms(3,4) have n0: "js_nth xs 0 = Fin a" and n1: "js_nth xs (int n - 1) = Fin b"
    by (simp_all add: js_nth_def nat_diff_distrib a_def b_def)
  from assms(4) have m: "0 < m" "(of_nat (n - 1) :: rat) = m" "n \<noteq> 1"
    by (simp_all add: m_def of_nat_diff)
  have span: "js_sub (Fin b) (Fin a) = fl (b - a)" by (simp add: js_sub_def)
  from ab have span0: "js_le (Fin 0) (fl (b - a))" using fl_mono [of 0 "b - a"] by simp
  have Ry: "R y = js_add (Fin a) (js_mul (js_div (Math_max (Fin 0) (Math_min (Fin m) y)) (Fin m))
                                       (fl (b - a)))" for y
    using m(3) by (simp add: R_def n0 n1 span m_def)
  from m(1) have "Math_max (Fin 0) (Math_min (Fin m) (Fin m)) = Fin m"
    by (simp add: Math_max_def Math_min_def)
  with m(1) have "R (Fin m) = js_add (Fin a) (js_mul (Fin 1) (fl (b - a)))"
    by (simp add: Ry)
  then have top: "R (Fin (of_nat (n - 1))) = js_add (Fin a) (js_mul (Fin 1) (fl (b - a)))"
    by (simp only: m(2))
  from m(1) have "0 \<le> m" by simp
  from clamp_number [OF this, of y] show ?thesis
  proof
    assume "Math_max (Fin 0) (Math_min (Fin m) y) = NaN"
    with assms(6) show ?thesis by (simp add: Ry)
  next
    assume "\<exists>c. Math_max (Fin 0) (Math_min (Fin m) y) = Fin c \<and> 0 \<le> c \<and> c \<le> m"
    then obtain c where c: "Math_max (Fin 0) (Math_min (Fin m) y) = Fin c" "0 \<le> c" "c \<le> m"
      by blast
    from c(2,3) m(1) have "0 \<le> c / m" "c / m \<le> 1" by simp_all
    from fl_mono [OF this(1)] fl_mono [OF this(2)]
    have "js_le (Fin 0) (fl (c / m))" "js_le (fl (c / m)) (Fin 1)" by simp_all
    then obtain t where t: "fl (c / m) = Fin t" "0 \<le> t" "t \<le> 1" by (rule between_0_1)
    from m(1) c(1) t(1) have Ry': "R y = js_add (Fin a) (js_mul (Fin t) (fl (b - a)))"
      by (simp add: Ry)
    show ?thesis
    proof (cases "fl (b - a)")
      case NaN
      then show ?thesis by simp
    next
      case NegInf
      with span0 show ?thesis by simp
    next
      case PosInf
      with Ry' assms(6) show ?thesis by (simp add: signedInf_def split: if_splits)
    next
      case (Fin d)
      with span0 have d0: "0 \<le> d" by simp
      with t have "0 \<le> t * d" "t * d \<le> d" by (simp_all add: mult_left_le_one_le)
      from fl_mono [OF this(1)] fl_mono [OF this(2)]
      have M: "js_le (Fin 0) (fl (t * d))" "js_le (fl (t * d)) (fl d)" by simp_all
      from Ry' Fin assms(6) have v: "js_add (Fin a) (fl (t * d)) = Fin v" by simp
      then obtain s where s: "fl (t * d) = Fin s" by (cases "fl (t * d)") simp_all
      with M(1) have s0: "0 \<le> s" by simp
      from v s have vs: "fl (a + s) = Fin v" by simp
      from s0 have "a \<le> a + s" by simp
      from fl_mono [OF this] vs assms(5) have lower: "a \<le> v" by (simp add: a_def)
      from top Fin have top': "R (Fin (of_nat (n - 1))) = js_add (Fin a) (fl d)" by simp
      have upper: "js_le (Fin v) (R (Fin (of_nat (n - 1))))"
      proof (cases "fl d")
        case NaN
        then show ?thesis by simp
      next
        case NegInf
        with M(2) s show ?thesis by simp
      next
        case PosInf
        with top' show ?thesis by simp
      next
        case (Fin d2)
        with M(2) s have "a + s \<le> a + d2" by simp
        from fl_mono [OF this] vs top' Fin show ?thesis by simp
      qed
      from lower upper show ?thesis by (simp add: a_def)
    qed
  qed
qed

lemma yToLat_bounds:
  assumes "sorted (lats r)" and "length (lats r) = height r" and "2 \<le> height r"
    and "fl (lats r ! 0) = Fin (lats r ! 0)" and "yToLat r y = Fin v"
  shows "lats r ! 0 \<le> v \<and> js_le (Fin v) (yToLat r (Fin (of_nat (height r - 1))))"
  using assms(5) unfolding yToLat_def Let_def
  by (rule reproject_bounds [OF assms(1,2,3,4)])

lemma xToLon_bounds:
  assumes "sorted (lons r)" and "length (lons r) = width r" and "2 \<le> width r"
    and "fl (lons r ! 0) = Fin (lons r ! 0)" and "xToLon r x = Fin v"
  shows "lons r ! 0 \<le> v \<and> js_le (Fin v) (xToLon r (Fin (of_nat (width r - 1))))"
  using assms(5) unfolding xToLon_def Let_def
  by (rule reproject_bounds [OF assms(1,2,3,4)])

lemma projectRing_elements:
  assumes "projectRing r ring = Inr lls" and "ll \<in> set lls"
  shows "\<exists>y x. ll = (yToLat r y, xToLon r x)"
  using assms
proof (induction ring arbitrary: lls)
  case Nil
  then show ?case by simp
next
  case (Cons e es)
  from Cons.prems(1) obtain l ls where
    l: "projectPoint r e = Inr l" "projectRing r es = Inr ls" "lls = l # ls"
    by (auto split: sum.splits)
  from l(1) have "\<exists>y x. l = (yToLat r y, xToLon r x)" by (cases e) auto
  with Cons.IH [OF l(2)] Cons.prems(2) l(3) show ?case by auto
qed

lemma finitePoints_elements:
  "(a, b) \<in> set (finitePoints lls) \<Longrightarrow> (Fin a, Fin b) \<in> set lls"
  by (induction lls rule: finitePoints.induct) auto

lemma first_mem: "xs \<noteq> [] \<Longrightarrow> xs ! 0 \<in> set xs"
  by (cases xs) simp_all

lemma chaikin_pass_pred:
  assumes conv: "\<And>p q. P p \<Longrightarrow> P q \<Longrightarrow> P (cutQ p q) \<and> P (cutR p q)"
    and all: "\<forall>p\<in>set pts. P p"
    and pass: "chaikin_pass c pts = Inr next"
  shows "\<forall>p\<in>set next. P p"
proof -
  have nth: "P (pts ! i)" if "i < length pts" for i using all that by simp
  let ?n = "length pts"
  let ?lo = "if c then 0 else 1"
  let ?hi = "(if c then ?n else ?n - 1) - 1"
  let ?cuts = "concat (map (\<lambda>i. [cutQ (pts ! i) (pts ! (i + 1)), cutR (pts ! i) (pts ! (i + 1))])
                         [?lo ..< ?hi])"
  have cuts: "\<forall>p\<in>set ?cuts. P p"
  proof
    fix p assume "p \<in> set ?cuts"
    then obtain i where i: "?lo \<le> i" "i < ?hi"
      "p = cutQ (pts ! i) (pts ! (i + 1)) \<or> p = cutR (pts ! i) (pts ! (i + 1))"
      by (auto simp add: set_cuts)
    from i(2) have "i < ?n" "i + 1 < ?n" by (auto split: if_splits)
    with i(3) conv [OF nth nth] show "P p" by blast
  qed
  define body where
    "body = (if \<not> c then [pts ! 0] else []) @ ?cuts @ (if \<not> c then [pts ! (?n - 1)] else [])"
  from pass have n0: "\<not> c \<longrightarrow> ?n \<noteq> 0"
    by (auto simp add: chaikin_pass_def Let_def split: if_splits)
  have base: "\<forall>p\<in>set body. P p"
  proof (cases c)
    case True
    with cuts show ?thesis by (simp add: body_def)
  next
    case False
    with n0 have "0 < ?n" by simp
    then have "P (pts ! 0)" "P (pts ! (?n - 1))" by (simp_all add: nth)
    with cuts False show ?thesis by (auto simp add: body_def)
  qed
  from pass have "next = body \<or> (body \<noteq> [] \<and> next = body @ [(fst (body ! 0), snd (body ! 0))])"
    unfolding body_def by (simp add: chaikin_pass_def Let_def split: if_splits)
  then show ?thesis
  proof
    assume "next = body"
    with base show ?thesis by simp
  next
    assume a: "body \<noteq> [] \<and> next = body @ [(fst (body ! 0), snd (body ! 0))]"
    then have "body ! 0 \<in> set body" by (simp add: first_mem)
    with base have "P (body ! 0)" by blast
    with a base show ?thesis by auto
  qed
qed

lemma chaikin_loop_pred:
  assumes conv: "\<And>p q. P p \<Longrightarrow> P q \<Longrightarrow> P (cutQ p q) \<and> P (cutR p q)"
  shows "\<forall>p\<in>set pts. P p \<Longrightarrow> chaikin_loop c k pts = Inr out \<Longrightarrow> \<forall>p\<in>set out. P p"
proof (induction k arbitrary: pts)
  case 0
  then show ?case by simp
next
  case (Suc k)
  from Suc.prems(2) obtain nxt where nxt: "chaikin_pass c pts = Inr nxt"
    by (auto split: sum.splits)
  from chaikin_pass_pred [of P, OF conv Suc.prems(1) nxt] have P: "\<forall>p\<in>set nxt. P p" by simp
  show ?case
  proof (cases "length nxt > 12000")
    case True
    with nxt Suc.prems(2) P show ?thesis by simp
  next
    case False
    with nxt Suc.prems(2) have "chaikin_loop c k nxt = Inr out" by simp
    from Suc.IH [OF P this] show ?thesis .
  qed
qed

lemma chaikinSmooth_pred:
  assumes "\<And>p q. P p \<Longrightarrow> P q \<Longrightarrow> P (cutQ p q) \<and> P (cutR p q)"
    and "\<forall>p\<in>set pts. P p" and "chaikinSmooth pts k = Inr out"
  shows "\<forall>p\<in>set out. P p"
proof (cases "length pts < 3")
  case True
  with assms(2,3) show ?thesis by (simp add: chaikinSmooth_def)
next
  case False
  with assms(3) chaikin_loop_pred [of P, OF assms(1) assms(2)] show ?thesis
    by (simp add: chaikinSmooth_def Let_def)
qed


text \<open>A corner cut of two points of a box lies in the box.\<close>

lemma cut_in_box:
  assumes "a \<le> fst p \<and> js_le (Fin (fst p)) T \<and> c \<le> snd p \<and> js_le (Fin (snd p)) U"
    and "a \<le> fst q \<and> js_le (Fin (fst q)) T \<and> c \<le> snd q \<and> js_le (Fin (snd q)) U"
  shows "(a \<le> fst (cutQ p q) \<and> js_le (Fin (fst (cutQ p q))) T
          \<and> c \<le> snd (cutQ p q) \<and> js_le (Fin (snd (cutQ p q))) U)
       \<and> (a \<le> fst (cutR p q) \<and> js_le (Fin (fst (cutR p q))) T
          \<and> c \<le> snd (cutR p q) \<and> js_le (Fin (snd (cutR p q))) U)"
  using assms by (cases T; cases U) (simp_all add: cutQ_def cutR_def)

lemma ringLoop_pred:
  assumes conv: "\<And>p q. P p \<Longrightarrow> P q \<Longrightarrow> P (cutQ p q) \<and> P (cutR p q)"
    and proj: "\<And>ring lls p. projectRing r ring = Inr lls \<Longrightarrow> p \<in> set (finitePoints lls) \<Longrightarrow> P p"
  shows "\<forall>pl\<in>set results. \<forall>p\<in>set (latlngs pl). P p \<Longrightarrow> ringLoop r v rings results = Inr out
         \<Longrightarrow> \<forall>pl\<in>set out. \<forall>p\<in>set (latlngs pl). P p"
proof (induction rings arbitrary: results)
  case Nil
  then show ?case by simp
next
  case (Cons ring rings)
  show ?case
  proof (cases "length ring < 2")
    case True
    with Cons.prems(2) have "ringLoop r v rings results = Inr out" by simp
    from Cons.IH [OF Cons.prems(1) this] show ?thesis .
  next
    case False
    with Cons.prems(2) obtain lls where lls: "projectRing r ring = Inr lls"
      by (auto split: sum.splits)
    show ?thesis
    proof (cases "length (finitePoints lls) \<ge> 2")
      case short: False
      with False lls Cons.prems(2) have "ringLoop r v rings results = Inr out"
        by (simp add: Let_def)
      from Cons.IH [OF Cons.prems(1) this] show ?thesis .
    next
      case True
      with False lls Cons.prems(2) obtain smoothed where
        sm: "chaikinSmooth (finitePoints lls) 4 = Inr smoothed"
        and rest: "ringLoop r v rings (results @ [\<lparr> latlngs = smoothed, lineValue = v \<rparr>]) = Inr out"
        by (auto simp add: Let_def split: sum.splits)
      have "\<forall>p\<in>set (finitePoints lls). P p" using proj [OF lls] by blast
      from chaikinSmooth_pred [of P, OF conv this sm] have "\<forall>p\<in>set smoothed. P p" by simp
      with Cons.prems(1)
      have "\<forall>pl\<in>set (results @ [\<lparr> latlngs = smoothed, lineValue = v \<rparr>]). \<forall>p\<in>set (latlngs pl). P p"
        by auto
      from Cons.IH [OF this rest] show ?thesis .
    qed
  qed
qed

lemma contourLoop_pred:
  assumes conv: "\<And>p q. P p \<Longrightarrow> P q \<Longrightarrow> P (cutQ p q) \<and> P (cutR p q)"
    and proj: "\<And>ring lls p. projectRing r ring = Inr lls \<Longrightarrow> p \<in> set (finitePoints lls) \<Longrightarrow> P p"
  shows "\<forall>pl\<in>set results. \<forall>p\<in>set (latlngs pl). P p \<Longrightarrow> contourLoop r cs results = Inr out
         \<Longrightarrow> \<forall>pl\<in>set out. \<forall>p\<in>set (latlngs pl). P p"
proof (induction cs arbitrary: results)
  case Nil
  then show ?case by simp
next
  case (Cons c cs)
  from Cons.prems(2) obtain mid where
    mid: "ringLoop r (contourValue c) (flattenRings (coordinates c)) results = Inr mid"
    and rest: "contourLoop r cs mid = Inr out"
    by (auto split: sum.splits)
  from ringLoop_pred [of P, OF conv proj Cons.prems(1) mid]
  have "\<forall>pl\<in>set mid. \<forall>p\<in>set (latlngs pl). P p" by simp
  from Cons.IH [OF this rest] show ?case .
qed

text \<open>
  The bound for any raster with ascending axes of the raster's height and width that
  start in doubles.
\<close>

lemma rasterPolylines_bounds:
  assumes "sorted (lats r)" and "sorted (lons r)"
    and "length (lats r) = height r" and "length (lons r) = width r"
    and "fl (lats r ! 0) = Fin (lats r ! 0)" and "fl (lons r ! 0) = Fin (lons r ! 0)"
    and "rasterPolylines gen thresholds r = Inr polylines"
    and "pl \<in> set polylines" and "(la, lo) \<in> set (latlngs pl)"
  shows "lats r ! 0 \<le> la \<and> js_le (Fin la) (yToLat r (Fin (of_nat (height r - 1))))
       \<and> lons r ! 0 \<le> lo \<and> js_le (Fin lo) (xToLon r (Fin (of_nat (width r - 1))))"
proof (cases "width r < 2 \<or> height r < 2")
  case True
  with assms(7,8) show ?thesis by (simp add: rasterPolylines_def)
next
  case False
  then have h: "2 \<le> height r" and w: "2 \<le> width r" by simp_all
  define P where "P = (\<lambda>p :: pt.
      lats r ! 0 \<le> fst p \<and> js_le (Fin (fst p)) (yToLat r (Fin (of_nat (height r - 1))))
    \<and> lons r ! 0 \<le> snd p \<and> js_le (Fin (snd p)) (xToLon r (Fin (of_nat (width r - 1)))))"
  have conv: "\<And>p q. P p \<Longrightarrow> P q \<Longrightarrow> P (cutQ p q) \<and> P (cutR p q)"
    unfolding P_def by (rule cut_in_box)
  have proj: "P p" if "projectRing r ring = Inr lls" "p \<in> set (finitePoints lls)" for ring lls p
  proof -
    obtain a b where p: "p = (a, b)" by (cases p)
    with that(2) have "(Fin a, Fin b) \<in> set lls" by (simp add: finitePoints_elements)
    from projectRing_elements [OF that(1) this] obtain y x where
      "yToLat r y = Fin a" "xToLon r x = Fin b" by auto
    from yToLat_bounds [OF assms(1,3) h assms(5) this(1)]
      xToLon_bounds [OF assms(2,4) w assms(6) this(2)] p
    show ?thesis by (simp add: P_def)
  qed
  from False assms(7) obtain cs where "contourLoop r cs [] = Inr polylines"
    by (auto simp add: rasterPolylines_def split: sum.splits)
  from contourLoop_pred [of P r "[]", OF conv proj _ this] assms(8,9) have "P (la, lo)"
    by auto
  then show ?thesis by (simp add: P_def)
qed




text \<open>
  The contour stage returns a list of polylines whenever the generator returns contours
  whose rings hold arrays only (as the coordinate pairs of d3-contour are).
\<close>

lemma projectRing_returns:
  "\<forall>e\<in>set ring. \<exists>es. e = Arr es \<Longrightarrow> \<exists>lls. projectRing r ring = Inr lls"
  by (induction ring) auto

lemma ringLoop_returns:
  "\<forall>ring\<in>set rings. \<forall>e\<in>set ring. \<exists>es. e = Arr es
   \<Longrightarrow> \<exists>out. ringLoop r v rings results = Inr out"
proof (induction rings arbitrary: results)
  case Nil
  then show ?case by simp
next
  case (Cons ring rings)
  then have "\<forall>e\<in>set ring. \<exists>es. e = Arr es" by simp
  from projectRing_returns [OF this] obtain lls where lls: "projectRing r ring = Inr lls"
    by blast
  obtain sm where sm: "chaikinSmooth (finitePoints lls) 4 = Inr sm"
    using chaikinSmooth_returns by blast
  from Cons.prems have rest: "\<forall>ring\<in>set rings. \<forall>e\<in>set ring. \<exists>es. e = Arr es" by simp
  from Cons.IH [OF rest, of results]
    Cons.IH [OF rest, of "results @ [\<lparr> latlngs = sm, lineValue = v \<rparr>]"] lls sm
  show ?case by (simp add: Let_def)
qed

lemma contourLoop_returns:
  "\<forall>c\<in>set cs. \<forall>ring\<in>set (flattenRings (coordinates c)). \<forall>e\<in>set ring. \<exists>es. e = Arr es
   \<Longrightarrow> \<exists>out. contourLoop r cs results = Inr out"
proof (induction cs arbitrary: results)
  case Nil
  then show ?case by simp
next
  case (Cons c cs)
  then have "\<forall>ring\<in>set (flattenRings (coordinates c)). \<forall>e\<in>set ring. \<exists>es. e = Arr es"
    by simp
  from ringLoop_returns [OF this] obtain mid where
    "ringLoop r (contourValue c) (flattenRings (coordinates c)) results = Inr mid" by blast
  moreover from Cons.prems
  have "\<forall>c\<in>set cs. \<forall>ring\<in>set (flattenRings (coordinates c)). \<forall>e\<in>set ring. \<exists>es. e = Arr es"
    by simp
  from Cons.IH [OF this, of mid] obtain out where "contourLoop r cs mid = Inr out" by blast
  ultimately show ?case by simp
qed

lemma rasterPolylines_returns:
  assumes "gen (width r) (height r) thresholds (rvalues r) = Inr cs"
    and "\<forall>c\<in>set cs. \<forall>ring\<in>set (flattenRings (coordinates c)). \<forall>e\<in>set ring. \<exists>es. e = Arr es"
  shows "\<exists>polylines. rasterPolylines gen thresholds r = Inr polylines"
  using assms(1) contourLoop_returns [OF assms(2), of r "[]"]
  by (simp add: rasterPolylines_def)

text \<open>
  The same bound for \<open>ContourLayer\<close>: the raster it builds always has ascending axes.
\<close>

lemma ContourLayer_bounds:
  assumes "buildRasterFromPoints points = Inr (Some r)"
    and "fl (lats r ! 0) = Fin (lats r ! 0)" and "fl (lons r ! 0) = Fin (lons r ! 0)"
    and "ContourLayer gen points thresholds = Inr polylines"
    and "pl \<in> set polylines" and "(la, lo) \<in> set (latlngs pl)"
  shows "lats r ! 0 \<le> la \<and> js_le (Fin la) (yToLat r (Fin (of_nat (height r - 1))))
       \<and> lons r ! 0 \<le> lo \<and> js_le (Fin lo) (xToLon r (Fin (of_nat (width r - 1))))"
proof -
  from assms(1,4) have "rasterPolylines gen thresholds r = Inr polylines"
    by (simp add: ContourLayer_def)
  from rasterPolylines_bounds [OF buildRasterFromPoints_axes(5,6) [OF assms(1)]
      buildRasterFromPoints_axes(3,4) [OF assms(1), symmetric] assms(2,3) this assms(5,6)]
  show ?thesis .
qed

text \<open>
  Claim C7. Whatever the thresholds and the contour generator: when the sample list is
  absent or empty, \<open>buildRasterFromPoints\<close> returns no raster and \<open>ContourLayer\<close> returns
  the empty list of polylines; when the raster built has width or height below 2,
  \<open>ContourLayer\<close> returns the empty list as well. Both are normal results (\<open>Inr\<close>), not
  errors.
\<close>

theorem degenerate_inputs:
  "((points = None \<or> points = Some []) \<longrightarrow>
       buildRasterFromPoints points = Inr None \<and> ContourLayer gen points thresholds = Inr [])
   \<and> (buildRasterFromPoints points = Inr (Some r) \<and> (width r < 2 \<or> height r < 2) \<longrightarrow>
       ContourLayer gen points thresholds = Inr [])"
  by (auto simp add: buildRasterFromPoints_def ContourLayer_def rasterPolylines_def)

theorem degenerate_inputs_witness:
  "buildRasterFromPoints None = Inr None
   \<and> ContourLayer (\<lambda>w h th vals. Inl TypeError) None [15, 45] = Inr []
   \<and> buildRasterFromPoints (Some []) = Inr None
   \<and> ContourLayer (\<lambda>w h th vals. Inl TypeError) (Some []) [15, 45] = Inr []
   \<and> buildRasterFromPoints (Some [\<lparr> lat = 35, lon = 139, wi = 50, zone = ''III'' \<rparr>])
       = Inr (Some \<lparr> rvalues = [CellNum 50], width = 1, height = 1, lats = [35], lons = [139],
                     dLat = Fin (3602879701896397 / 36028797018963968),
                     dLon = Fin (3602879701896397 / 36028797018963968) \<rparr>)
   \<and> ContourLayer (\<lambda>w h th vals. Inl TypeError)
       (Some [\<lparr> lat = 35, lon = 139, wi = 50, zone = ''III'' \<rparr>]) [15, 45] = Inr []"
proof -
  let ?gen = "\<lambda>(w::nat) (h::nat) (th::rat list) (vals::cell list). Inl TypeError :: error + contour list"
  let ?one = "Some [\<lparr> lat = 35, lon = 139, wi = 50, zone = ''III'' \<rparr>]"
  let ?r = "\<lparr> rvalues = [CellNum 50], width = 1, height = 1, lats = [35], lons = [139],
             dLat = Fin (3602879701896397 / 36028797018963968),
             dLon = Fin (3602879701896397 / 36028797018963968) \<rparr>"
  have one: "buildRasterFromPoints ?one = Inr (Some ?r)"
    by (simp add: buildRasterFromPoints_def sortedDistinct_def js_Map_def storeSample_def
        js_store_def Let_def fl_eval)
  from degenerate_inputs [where points = None and gen = ?gen and thresholds = "[15, 45]"]
    degenerate_inputs [where points = "Some []" and gen = ?gen and thresholds = "[15, 45]"]
    degenerate_inputs [where points = ?one and gen = ?gen and thresholds = "[15, 45]" and r = ?r]
    one
  show ?thesis by simp
qed

end
